theory Spec2Isabelle
  imports Complex_Main "HOL-Library.Word" "HOL-Library.Multiset" "HOL-Library.Sublist"
begin

unbundle bit_operations_syntax

section \<open>JavaScript values used by the three codecs\<close>

text \<open>
  A JavaScript string is a sequence of UTF-16 code units. \<open>charCodeAt\<close> reads one unit,
  \<open>String.fromCharCode\<close> writes one, \<open>length\<close> counts them. String literals of the
  source are written \<open>str ''...''\<close>.
\<close>

type_synonym jsstring = "16 word list"

definition cu :: "char \<Rightarrow> 16 word" where
  "cu c = of_nat (of_char c)"

definition str :: "string \<Rightarrow> jsstring" where
  "str s = map cu s"

text \<open>
  Every \<open>throw\<close> of the three source files is one constructor, named after its message;
  the three \<open>catch\<close> blocks that re-throw with a prefix keep the inner error. The last
  group are the exceptions of the built-ins \<open>btoa\<close>/\<open>atob\<close>, of a method call on
  \<open>undefined\<close>, and of \<open>JSON.parse\<close>.
\<close>

datatype error =
    CodeAndKeyEmpty         \<comment> \<open>Code and key cannot be empty for Lana-Vortex.\<close>
  | DecodeArgsRequired      \<comment> \<open>Encoded code and key are required for decoding.\<close>
  | InvalidFormat           \<comment> \<open>Invalid Lana-Vortex format. Cannot find payload or map.\<close>
  | MapInconsistent         \<comment> \<open>Map is inconsistent. Cannot find original index.\<close>
  | DecodingFailed error    \<comment> \<open>Decoding failed. The key might be incorrect or the code is corrupted. + e.message\<close>
  | KeyRequiredToConceal    \<comment> \<open>A secret key is required for String Concealment.\<close>
  | KeyRequiredToReveal     \<comment> \<open>A secret key is required to reveal strings.\<close>
  | ArrayOrKeyNotFound      \<comment> \<open>Could not find the concealed string array or key in the code.\<close>
  | KeyIncorrect            \<comment> \<open>The provided key is incorrect.\<close>
  | RevealFailed error      \<comment> \<open>Failed to reveal strings. + e.message\<close>
  | MapRequired             \<comment> \<open>Deobfuscation map is required for Lexical Scramble.\<close>
  | DeobfuscateFailed error \<comment> \<open>Failed to parse map or deobfuscate. + e.message\<close>
  | InvalidCharacterError
  | TypeError
  | JsonNotParsed
  | PatternNotModelled

text \<open>The object \<open>{result, map}\<close> every codec operation returns.\<close>

record codec_result =
  result :: jsstring
  map_log :: jsstring

text \<open>\<open>xs.map(f)\<close> where \<open>f\<close> may throw: the first exception, from the left, ends the call.\<close>

fun map_throwing :: "('a \<Rightarrow> error + 'b) \<Rightarrow> 'a list \<Rightarrow> error + 'b list" where
  "map_throwing f [] = Inr []"
| "map_throwing f (x # xs) =
     (case f x of
        Inl e \<Rightarrow> Inl e
      | Inr y \<Rightarrow> (case map_throwing f xs of Inl e \<Rightarrow> Inl e | Inr ys \<Rightarrow> Inr (y # ys)))"

text \<open>\<open>s.substring(a, b)\<close> for non-negative integer arguments: both are clamped to the
  length and swapped when \<open>a > b\<close>.\<close>

definition substring :: "jsstring \<Rightarrow> nat \<Rightarrow> nat \<Rightarrow> jsstring" where
  "substring s a b =
     (let a' = min a (length s); b' = min b (length s)
      in take (max a' b' - min a' b') (drop (min a' b') s))"

text \<open>Decimal text of a non-negative integer, as template literals and
  \<open>JSON.stringify\<close> print array indices.\<close>

function show_nat :: "nat \<Rightarrow> jsstring" where
  "show_nat n =
     (if n < 10 then [of_nat (48 + n)] else show_nat (n div 10) @ [of_nat (48 + n mod 10)])"
  by pat_completeness auto
termination
  by (relation "measure id") auto

declare show_nat.simps [simp del]

subsection \<open>The position-keyed XOR cipher\<close>

text \<open>
  \<open>xorCipher\<close> is defined twice in the source (lana-vortex and string-conceal), with the
  same body. \<open>^\<close> works on the 32-bit values of two code units and
  \<open>String.fromCharCode\<close> keeps the low 16 bits, so the result is the XOR of the units.
  With an empty key \<open>i % key.length\<close> is NaN, \<open>charCodeAt\<close> returns NaN and
  \<open>c ^ NaN\<close> is \<open>c\<close>.
\<close>

definition xorCipher :: "jsstring \<Rightarrow> jsstring \<Rightarrow> jsstring" where
  "xorCipher text key =
     map (\<lambda>(i, c). if key = [] then c else c XOR key ! (i mod length key))
         (enumerate 0 text)"

subsection \<open>\<open>btoa\<close> and \<open>atob\<close>\<close>

definition b64_alphabet :: jsstring where
  "b64_alphabet = str ''ABCDEFGHIJKLMNOPQRSTUVWXYZabcdefghijklmnopqrstuvwxyz0123456789+/''"

definition b64_char :: "nat \<Rightarrow> 16 word" where
  "b64_char n = b64_alphabet ! n"

fun b64_encode :: "nat list \<Rightarrow> jsstring" where
  "b64_encode (a # b # c # rest) =
     [b64_char (a div 4), b64_char ((a mod 4) * 16 + b div 16),
      b64_char ((b mod 16) * 4 + c div 64), b64_char (c mod 64)] @ b64_encode rest"
| "b64_encode [a, b] =
     [b64_char (a div 4), b64_char ((a mod 4) * 16 + b div 16), b64_char ((b mod 16) * 4), 0x3D]"
| "b64_encode [a] = [b64_char (a div 4), b64_char ((a mod 4) * 16), 0x3D, 0x3D]"
| "b64_encode [] = []"

text \<open>\<open>btoa\<close> throws InvalidCharacterError when a code unit is above 0xFF.\<close>

definition btoa :: "jsstring \<Rightarrow> error + jsstring" where
  "btoa s =
     (if list_all (\<lambda>c. c \<le> 0xFF) s then Inr (b64_encode (map unat s))
      else Inl InvalidCharacterError)"

definition b64_value :: "16 word \<Rightarrow> nat option" where
  "b64_value c =
     (if 0x41 \<le> c \<and> c \<le> 0x5A then Some (unat c - 65)
      else if 0x61 \<le> c \<and> c \<le> 0x7A then Some (unat c - 71)
      else if 0x30 \<le> c \<and> c \<le> 0x39 then Some (unat c + 4)
      else if c = 0x2B then Some 62
      else if c = 0x2F then Some 63
      else None)"

fun b64_decode :: "nat list \<Rightarrow> jsstring" where
  "b64_decode (a # b # c # d # rest) =
     [of_nat (a * 4 + b div 16), of_nat ((b mod 16) * 16 + c div 4), of_nat ((c mod 4) * 64 + d)]
     @ b64_decode rest"
| "b64_decode [a, b, c] = [of_nat (a * 4 + b div 16), of_nat ((b mod 16) * 16 + c div 4)]"
| "b64_decode [a, b] = [of_nat (a * 4 + b div 16)]"
| "b64_decode [a] = []"
| "b64_decode [] = []"

definition ascii_whitespace :: "16 word \<Rightarrow> bool" where
  "ascii_whitespace c \<longleftrightarrow> c = 0x09 \<or> c = 0x0A \<or> c = 0x0C \<or> c = 0x0D \<or> c = 0x20"

definition strip_padding :: "jsstring \<Rightarrow> jsstring" where
  "strip_padding d =
     (if length d mod 4 = 0 \<and> d \<noteq> [] \<and> last d = 0x3D
      then (if butlast d \<noteq> [] \<and> last (butlast d) = 0x3D then butlast (butlast d) else butlast d)
      else d)"

text \<open>
  \<open>atob\<close> is the forgiving base64 decoding of the HTML standard: ASCII whitespace is
  removed, one or two trailing \<open>=\<close> are removed when the length is a multiple of four,
  a remaining length of 1 modulo 4 or a character outside the alphabet throws, and the
  bits left over after the last full byte are dropped.
\<close>

definition atob :: "jsstring \<Rightarrow> error + jsstring" where
  "atob s =
     (let d = strip_padding (filter (\<lambda>c. \<not> ascii_whitespace c) s)
      in if length d mod 4 = 1 \<or> \<not> list_all (\<lambda>c. b64_value c \<noteq> None) d
         then Inl InvalidCharacterError
         else Inr (b64_decode (map (\<lambda>c. the (b64_value c)) d)))"

subsection \<open>\<open>JSON.stringify\<close> and \<open>JSON.parse\<close>\<close>

text \<open>\<open>xs.join(sep)\<close> on an array of strings.\<close>

fun join :: "jsstring \<Rightarrow> jsstring list \<Rightarrow> jsstring" where
  "join sep [] = []"
| "join sep [x] = x"
| "join sep (x # y # ys) = x @ sep @ join sep (y # ys)"

definition hex_digit :: "nat \<Rightarrow> 16 word" where
  "hex_digit n = (if n < 10 then of_nat (48 + n) else of_nat (87 + n))"

definition unicode_escape :: "16 word \<Rightarrow> jsstring" where
  "unicode_escape c =
     [0x5C, 0x75, hex_digit (unat c div 4096), hex_digit (unat c div 256 mod 16),
      hex_digit (unat c div 16 mod 16), hex_digit (unat c mod 16)]"

definition high_surrogate :: "16 word \<Rightarrow> bool" where
  "high_surrogate c \<longleftrightarrow> 0xD800 \<le> c \<and> c \<le> 0xDBFF"

definition low_surrogate :: "16 word \<Rightarrow> bool" where
  "low_surrogate c \<longleftrightarrow> 0xDC00 \<le> c \<and> c \<le> 0xDFFF"

definition quote_unit :: "16 word \<Rightarrow> jsstring" where
  "quote_unit c =
     (if c = 0x08 then [0x5C, 0x62]
      else if c = 0x09 then [0x5C, 0x74]
      else if c = 0x0A then [0x5C, 0x6E]
      else if c = 0x0C then [0x5C, 0x66]
      else if c = 0x0D then [0x5C, 0x72]
      else if c = 0x22 then [0x5C, 0x22]
      else if c = 0x5C then [0x5C, 0x5C]
      else if c < 0x20 \<or> high_surrogate c \<or> low_surrogate c then unicode_escape c
      else [c])"

text \<open>The body of a JSON string: the short escapes, \<open>\u\<close> escapes for the other
  control characters and for surrogates that are not part of a pair.\<close>

fun quote_units :: "jsstring \<Rightarrow> jsstring" where
  "quote_units [] = []"
| "quote_units [c] = quote_unit c"
| "quote_units (c # d # ds) =
     (if high_surrogate c \<and> low_surrogate d then c # d # quote_units ds
      else quote_unit c @ quote_units (d # ds))"

definition json_string :: "jsstring \<Rightarrow> jsstring" where
  "json_string s = [0x22] @ quote_units s @ [0x22]"

text \<open>\<open>JSON.stringify\<close> of an array of strings, without indentation.\<close>

definition stringify_strings :: "jsstring list \<Rightarrow> jsstring" where
  "stringify_strings xs = [0x5B] @ join [0x2C] (map json_string xs) @ [0x5D]"

text \<open>\<open>JSON.stringify\<close> of an array of non-negative integers; a hole of the array
  (\<open>None\<close>) prints as \<open>null\<close>.\<close>

definition stringify_indices :: "nat option list \<Rightarrow> jsstring" where
  "stringify_indices xs =
     [0x5B] @ join [0x2C] (map (\<lambda>x. case x of None \<Rightarrow> str ''null'' | Some n \<Rightarrow> show_nat n) xs)
     @ [0x5D]"

text \<open>
  \<open>JSON.parse\<close> is modelled on the arrays the decoders read: an array whose elements are
  string literals, non-negative integers without fraction or exponent, or \<open>null\<close>.
  On any other text the model answers \<open>None\<close>, which stands both for the SyntaxError of
  \<open>JSON.parse\<close> and for JSON outside this fragment (negative or fractional numbers,
  booleans, nested arrays, objects); no statement below is about such a text.
\<close>

datatype json = JString jsstring | JNumber nat | JNull

definition json_whitespace :: "16 word \<Rightarrow> bool" where
  "json_whitespace c \<longleftrightarrow> c = 0x09 \<or> c = 0x0A \<or> c = 0x0D \<or> c = 0x20"

definition skip_ws :: "jsstring \<Rightarrow> jsstring" where
  "skip_ws s = dropWhile json_whitespace s"

definition hex_value :: "16 word \<Rightarrow> nat option" where
  "hex_value c =
     (if 0x30 \<le> c \<and> c \<le> 0x39 then Some (unat c - 48)
      else if 0x61 \<le> c \<and> c \<le> 0x66 then Some (unat c - 87)
      else if 0x41 \<le> c \<and> c \<le> 0x46 then Some (unat c - 55)
      else None)"

definition simple_escape :: "16 word \<Rightarrow> 16 word option" where
  "simple_escape e =
     (if e = 0x22 \<or> e = 0x5C \<or> e = 0x2F then Some e
      else if e = 0x62 then Some 0x08
      else if e = 0x66 then Some 0x0C
      else if e = 0x6E then Some 0x0A
      else if e = 0x72 then Some 0x0D
      else if e = 0x74 then Some 0x09
      else None)"

text \<open>The characters of a string literal after its opening quote: the text of the
  string and what follows the closing quote.\<close>

fun parse_string_body :: "jsstring \<Rightarrow> (jsstring \<times> jsstring) option" where
  "parse_string_body [] = None"
| "parse_string_body (c # cs) =
     (if c = 0x22 then Some ([], cs)
      else if c < 0x20 then None
      else if c = 0x5C then
        (case cs of
           [] \<Rightarrow> None
         | e # es \<Rightarrow>
            (case simple_escape e of
               Some u \<Rightarrow> map_option (\<lambda>(t, r). (u # t, r)) (parse_string_body es)
             | None \<Rightarrow>
                (case es of
                   h1 # h2 # h3 # h4 # rest \<Rightarrow>
                     (case (hex_value h1, hex_value h2, hex_value h3, hex_value h4) of
                        (Some a, Some b, Some c', Some d) \<Rightarrow>
                          if e = 0x75
                          then map_option
                                 (\<lambda>(t, r). (of_nat (a * 4096 + b * 256 + c' * 16 + d) # t, r))
                                 (parse_string_body rest)
                          else None
                      | _ \<Rightarrow> None)
                 | _ \<Rightarrow> None)))
      else map_option (\<lambda>(t, r). (c # t, r)) (parse_string_body cs))"

definition is_digit :: "16 word \<Rightarrow> bool" where
  "is_digit c \<longleftrightarrow> 0x30 \<le> c \<and> c \<le> 0x39"

definition read_nat :: "jsstring \<Rightarrow> nat" where
  "read_nat ds = foldl (\<lambda>n d. 10 * n + (unat d - 48)) 0 ds"

text \<open>One array element and the text after it. A number is \<open>0\<close> or starts with a
  non-zero digit, and must not continue as a fraction or an exponent.\<close>

definition parse_scalar :: "jsstring \<Rightarrow> (json \<times> jsstring) option" where
  "parse_scalar s =
     (case s of
        [] \<Rightarrow> None
      | c # cs \<Rightarrow>
          if c = 0x22 then map_option (\<lambda>(t, r). (JString t, r)) (parse_string_body cs)
          else if is_digit c then
            (let ds = takeWhile is_digit s; r = dropWhile is_digit s
             in if (c = 0x30 \<and> length ds > 1)
                   \<or> (r \<noteq> [] \<and> (hd r = 0x2E \<or> hd r = 0x65 \<or> hd r = 0x45))
                then None else Some (JNumber (read_nat ds), r))
          else if take 4 s = str ''null'' then Some (JNull, drop 4 s)
          else None)"

text \<open>The elements after \<open>[\<close> or after a comma, up to the closing bracket, which must
  end the text. The recursion is on the text that is left, bounded by its length.\<close>

function parse_elements :: "jsstring \<Rightarrow> json list option" where
  "parse_elements s =
     (case parse_scalar (skip_ws s) of
        None \<Rightarrow> None
      | Some (v, r) \<Rightarrow>
          (case skip_ws r of
             [] \<Rightarrow> None
           | c # cs \<Rightarrow>
               if c = 0x2C then
                 (if length cs < length s then map_option ((#) v) (parse_elements cs) else None)
               else if c = 0x5D \<and> skip_ws cs = [] then Some [v]
               else None))"
  by pat_completeness auto
termination
  by (relation "measure length") auto

declare parse_elements.simps [simp del]

definition parse_array :: "jsstring \<Rightarrow> json list option" where
  "parse_array s =
     (case skip_ws s of
        [] \<Rightarrow> None
      | c # cs \<Rightarrow>
          if c \<noteq> 0x5B then None
          else (case skip_ws cs of
                  [] \<Rightarrow> None
                | d # ds \<Rightarrow> if d = 0x5D then (if skip_ws ds = [] then Some [] else None)
                            else parse_elements cs))"

text \<open>
  \<open>ToString\<close> of a parsed element, as \<open>atob\<close> applies it to its argument. A number
  is kept exactly and printed in decimal, which is what JavaScript prints for an integer
  below \<open>2^53\<close>; a larger one is rounded to a double by \<open>JSON.parse\<close>, and printed
  with an exponent from \<open>10^21\<close> on. The artifacts of \<open>encode\<close> hold strings only,
  and no statement below is about an array with a number.
\<close>

definition to_string :: "json \<Rightarrow> jsstring" where
  "to_string v = (case v of JString s \<Rightarrow> s | JNumber n \<Rightarrow> show_nat n | JNull \<Rightarrow> str ''null'')"

subsection \<open>Regular-expression searches\<close>

text \<open>\<open>.\<close> matches every code unit except the four line terminators.\<close>

definition line_terminator :: "16 word \<Rightarrow> bool" where
  "line_terminator c \<longleftrightarrow> c = 0x0A \<or> c = 0x0D \<or> c = 0x2028 \<or> c = 0x2029"

text \<open>
  The lazy \<open>.*?\<close> followed by the literal text \<open>e\<close>: the shortest run of
  non-terminators after which \<open>e\<close> stands. The result is the run and the text after
  \<open>e\<close>.
\<close>

fun lazy_dots_until :: "jsstring \<Rightarrow> jsstring \<Rightarrow> (jsstring \<times> jsstring) option" where
  "lazy_dots_until e [] = (if e = [] then Some ([], []) else None)"
| "lazy_dots_until e (c # cs) =
     (if prefix e (c # cs) then Some ([], drop (length e) (c # cs))
      else if line_terminator c then None
      else map_option (\<lambda>(m, r). (c # m, r)) (lazy_dots_until e cs))"

text \<open>\<open>s.match(re)\<close> without the \<open>g\<close> flag: the match attempt \<open>m\<close> of the pattern is
  made at every position from the left, and the first success is the result.\<close>

fun regex_search :: "(jsstring \<Rightarrow> 'a option) \<Rightarrow> jsstring \<Rightarrow> 'a option" where
  "regex_search m [] = m []"
| "regex_search m (c # cs) = (case m (c # cs) of Some r \<Rightarrow> Some r | None \<Rightarrow> regex_search m cs)"

section \<open>The runtime\<close>

text \<open>
  Two things the codecs use are fixed by the JavaScript engine and not by the source:
  \<^item> \<open>Array.prototype.sort\<close> with a comparison function. The comparison function of
    lana-vortex ignores its arguments and draws from a generator, so it is not consistent,
    and the standard then leaves the order to the engine. The engine's procedure is a
    parameter: it gets the comparison function (which reads and updates the generator's
    state), the array and the state at the first comparison.
  \<^item> \<open>Math.random\<close>. \<open>math_random n\<close> is the text of
    \<open>Math.random().toString(36)\<close> at the \<open>n\<close>-th evaluation of a call, such as
    \<open>0.4fzyo82mvyr\<close>.
\<close>

type_synonym comparator = "nat \<Rightarrow> nat \<Rightarrow> int \<Rightarrow> real \<times> int"

record runtime =
  array_sort :: "comparator \<Rightarrow> nat list \<Rightarrow> int \<Rightarrow> nat list"
  math_random :: "nat \<Rightarrow> jsstring"

section \<open>lana-vortex: fragments, shuffle, XOR, wrapper\<close>

subsection \<open>Seed and generator\<close>

text \<open>
  \<open>createSeed\<close>: \<open>hash << 5\<close> is a 32-bit shift, the subtraction and the addition are
  exact on doubles of this size, and \<open>hash |= 0\<close> reduces the sum to a signed 32-bit
  integer again, so each step is the computation on 32-bit words. The result is the
  signed value.
\<close>

definition createSeed_step :: "32 word \<Rightarrow> 16 word \<Rightarrow> 32 word" where
  "createSeed_step hash char = (push_bit 5 hash - hash) + ucast char"

definition createSeed :: "jsstring \<Rightarrow> int" where
  "createSeed key = sint (foldl createSeed_step 0 key)"

text \<open>\<open>%\<close> on integers: the remainder takes the sign of the dividend.\<close>

definition js_rem :: "int \<Rightarrow> int \<Rightarrow> int" where
  "js_rem a b = sgn a * (\<bar>a\<bar> mod \<bar>b\<bar>)"

text \<open>
  One call of the function that \<open>seededRandom(seed)\<close> returns, with the captured variable
  \<open>seed\<close> passed in and out. For a 32-bit seed the product stays below \<open>2^53\<close>, so the
  integer arithmetic is exact; the quotient is the rational number the returned double
  approximates.
\<close>

definition seededRandom :: "int \<Rightarrow> real \<times> int" where
  "seededRandom seed =
     (let seed' = js_rem (seed * 9301 + 49297) 233280 in (real_of_int seed' / 233280, seed'))"

subsection \<open>encode\<close>

definition chunkSize :: "jsstring \<Rightarrow> nat" where
  "chunkSize key = max 2 (length key div 2)"

text \<open>The loop \<open>for (i = 0; i < code.length; i += chunkSize)\<close>, from index \<open>i\<close>.\<close>

function fragments_from :: "jsstring \<Rightarrow> jsstring \<Rightarrow> nat \<Rightarrow> jsstring list" where
  "fragments_from code key i =
     (if i < length code
      then substring code i (i + chunkSize key) # fragments_from code key (i + chunkSize key)
      else [])"
  by pat_completeness auto
termination
  by (relation "measure (\<lambda>(code, key, i). length code - i)") (auto simp: chunkSize_def)

declare fragments_from.simps [simp del]

text \<open>The comparison function \<open>() => random() - 0.5\<close>.\<close>

definition shuffle_compare :: comparator where
  "shuffle_compare a b seed = (case seededRandom seed of (r, seed') \<Rightarrow> (r - 0.5, seed'))"

definition shuffledIndices :: "runtime \<Rightarrow> jsstring \<Rightarrow> jsstring \<Rightarrow> nat list" where
  "shuffledIndices rt code key =
     array_sort rt shuffle_compare [0..<length (fragments_from code key 0)] (createSeed key)"

text \<open>\<open>a[i] = v\<close> on an array with holes: an index at or past the length extends it.\<close>

definition array_set :: "'a option list \<Rightarrow> nat \<Rightarrow> 'a \<Rightarrow> 'a option list" where
  "array_set xs i v =
     (if i < length xs then xs[i := Some v]
      else xs @ replicate (i - length xs) None @ [Some v])"

text \<open>\<open>a[i]\<close>: \<open>undefined\<close> (\<open>None\<close>) at or past the length.\<close>

definition array_get :: "'a list \<Rightarrow> nat \<Rightarrow> 'a option" where
  "array_get xs i = (if i < length xs then Some (xs ! i) else None)"

text \<open>The \<open>forEach\<close> over \<open>shuffledIndices\<close> fills two arrays; \<open>originalOrderMap\<close> starts
  as \<open>new Array(fragments.length)\<close>.\<close>

definition shuffledFragments :: "jsstring list \<Rightarrow> nat list \<Rightarrow> jsstring option list" where
  "shuffledFragments fragments indices = map (array_get fragments) indices"

definition originalOrderMap :: "nat \<Rightarrow> nat list \<Rightarrow> nat option list" where
  "originalOrderMap n indices =
     fold (\<lambda>(newIndex, originalIndex) m. array_set m originalIndex newIndex)
          (enumerate 0 indices) (replicate n None)"

text \<open>\<open>frag => btoa(xorCipher(frag, key))\<close>; \<open>xorCipher\<close> calls \<open>split\<close> on its
  argument, a TypeError on \<open>undefined\<close>.\<close>

definition encrypt_fragment :: "jsstring \<Rightarrow> jsstring option \<Rightarrow> error + jsstring" where
  "encrypt_fragment key frag =
     (case frag of None \<Rightarrow> Inl TypeError | Some f \<Rightarrow> btoa (xorCipher f key))"

definition wrapper :: "jsstring \<Rightarrow> jsstring \<Rightarrow> jsstring \<Rightarrow> jsstring" where
  "wrapper payload orderMap decoderKey =
     str ''(function(){var p='' @ payload @ str '',m='' @ orderMap @ str '',k=atob('' @ [0x22]
     @ decoderKey @ [0x22]
     @ str ''),x=function(t,k){return t.split('' @ [0x27, 0x27]
     @ str '').map(function(c,i){return String.fromCharCode(c.charCodeAt(0)^k.charCodeAt(i%k.length))}).join(''
     @ [0x27, 0x27]
     @ str '')},d=new Array(p.length);p.forEach(function(e,i){var oi=m.indexOf(i);d[oi]=x(atob(e),k)});(new Function(d.join(''
     @ [0x27, 0x27] @ str '')))()})();''"

text \<open>\<open>s.trim()\<close> removes white space and line terminators at both ends.\<close>

definition js_whitespace :: "16 word \<Rightarrow> bool" where
  "js_whitespace c \<longleftrightarrow>
     c = 0x09 \<or> c = 0x0A \<or> c = 0x0B \<or> c = 0x0C \<or> c = 0x0D \<or> c = 0x20 \<or> c = 0xA0
     \<or> c = 0x1680 \<or> (0x2000 \<le> c \<and> c \<le> 0x200A) \<or> c = 0x2028 \<or> c = 0x2029
     \<or> c = 0x202F \<or> c = 0x205F \<or> c = 0x3000 \<or> c = 0xFEFF"

definition trim :: "jsstring \<Rightarrow> jsstring" where
  "trim s = rev (dropWhile js_whitespace (rev (dropWhile js_whitespace s)))"

definition lv_log_encode :: jsstring where
  "lv_log_encode =
     str ''Deobfuscation requires the original key. The result is a self-executing script.''"

text \<open>\<open>lanaVortex.encode(code, key)\<close>. \<open>!code\<close> and \<open>!key\<close> hold for the empty string.\<close>

definition lv_encode :: "runtime \<Rightarrow> jsstring \<Rightarrow> jsstring \<Rightarrow> error + codec_result" where
  "lv_encode rt code key =
     (if code = [] \<or> key = [] then Inl CodeAndKeyEmpty
      else
        let fragments = fragments_from code key 0;
            indices = shuffledIndices rt code key
        in case map_throwing (encrypt_fragment key) (shuffledFragments fragments indices) of
             Inl e \<Rightarrow> Inl e
           | Inr encryptedFragments \<Rightarrow>
               (case btoa key of
                  Inl e \<Rightarrow> Inl e
                | Inr decoderKey \<Rightarrow>
                    Inr \<lparr> result =
                            trim (wrapper (stringify_strings encryptedFragments)
                                    (stringify_indices (originalOrderMap (length fragments) indices))
                                    decoderKey),
                          map_log = lv_log_encode \<rparr>))"

subsection \<open>decode\<close>

text \<open>One attempt of \<open>/var p=(\[.*?\])/\<close> (or \<open>var m=\<close>) at the start of \<open>s\<close>; the
  result is the text of the group.\<close>

definition match_var_array :: "jsstring \<Rightarrow> jsstring \<Rightarrow> jsstring option" where
  "match_var_array name s =
     (if prefix (name @ [0x5B]) s
      then map_option (\<lambda>(m, r). [0x5B] @ m @ [0x5D])
             (lazy_dots_until [0x5D] (drop (length name + 1) s))
      else None)"

text \<open>\<open>orderMap.indexOf(i)\<close>: the first position that holds the number \<open>i\<close>.\<close>

fun indexOf :: "json list \<Rightarrow> nat \<Rightarrow> nat option" where
  "indexOf [] i = None"
| "indexOf (v # vs) i = (if v = JNumber i then Some 0 else map_option Suc (indexOf vs i))"

text \<open>The \<open>forEach\<close> that puts each decrypted fragment at its original index.\<close>

fun place_fragments ::
  "json list \<Rightarrow> (nat \<times> jsstring) list \<Rightarrow> jsstring option list \<Rightarrow> error + jsstring option list"
where
  "place_fragments orderMap [] acc = Inr acc"
| "place_fragments orderMap ((i, frag) # rest) acc =
     (case indexOf orderMap i of
        None \<Rightarrow> Inl MapInconsistent
      | Some originalIndex \<Rightarrow> place_fragments orderMap rest (array_set acc originalIndex frag))"

text \<open>\<open>a.join('')\<close> on an array with holes: a hole contributes the empty string.\<close>

definition join_holes :: "jsstring option list \<Rightarrow> jsstring" where
  "join_holes xs = concat (map (\<lambda>x. case x of None \<Rightarrow> [] | Some s \<Rightarrow> s) xs)"

definition lv_log_decode :: jsstring where
  "lv_log_decode = str ''Successfully deobfuscated with the provided key.''"

text \<open>The body of the \<open>try\<close> block.\<close>

definition lv_decode_body :: "jsstring \<Rightarrow> jsstring \<Rightarrow> error + codec_result" where
  "lv_decode_body encodedCode key =
     (case (regex_search (match_var_array (str ''var p='')) encodedCode,
            regex_search (match_var_array (str ''var m='')) encodedCode) of
        (Some payloadText, Some mapText) \<Rightarrow>
          (case parse_array payloadText of
             None \<Rightarrow> Inl JsonNotParsed
           | Some payload \<Rightarrow>
               (case parse_array mapText of
                  None \<Rightarrow> Inl JsonNotParsed
                | Some orderMap \<Rightarrow>
                    (case map_throwing
                            (\<lambda>frag. case atob (to_string frag) of
                                       Inl e \<Rightarrow> Inl e
                                     | Inr t \<Rightarrow> Inr (xorCipher t key)) payload of
                       Inl e \<Rightarrow> Inl e
                     | Inr decryptedShuffled \<Rightarrow>
                         (case place_fragments orderMap (enumerate 0 decryptedShuffled)
                                 (replicate (length payload) None) of
                            Inl e \<Rightarrow> Inl e
                          | Inr originalFragments \<Rightarrow>
                              Inr \<lparr> result = join_holes originalFragments,
                                    map_log = lv_log_decode \<rparr>))))
      | _ \<Rightarrow> Inl InvalidFormat)"

text \<open>\<open>lanaVortex.decode(encodedCode, key)\<close>: the guard, then the \<open>try\<close> block whose
  \<open>catch\<close> re-throws every error with a prefix.\<close>

definition lv_decode :: "jsstring \<Rightarrow> jsstring \<Rightarrow> error + codec_result" where
  "lv_decode encodedCode key =
     (if encodedCode = [] \<or> key = [] then Inl DecodeArgsRequired
      else case lv_decode_body encodedCode key of
             Inl e \<Rightarrow> Inl (DecodingFailed e)
           | Inr r \<Rightarrow> Inr r)"

subsection \<open>An engine for concrete runs\<close>

text \<open>
  A sort procedure to run the codec on concrete inputs: an insertion sort that makes each
  comparison through the comparison function and its state. It stands for no particular
  engine. \<open>math_random\<close> of this runtime always answers the same text.
\<close>

fun insert_by :: "comparator \<Rightarrow> nat \<Rightarrow> nat list \<Rightarrow> int \<Rightarrow> nat list \<times> int" where
  "insert_by cmp x [] s = ([x], s)"
| "insert_by cmp x (y # ys) s =
     (case cmp x y s of
        (r, s') \<Rightarrow>
          if r \<le> 0 then (x # y # ys, s')
          else (case insert_by cmp x ys s' of (zs, s'') \<Rightarrow> (y # zs, s'')))"

fun insertion_sort :: "comparator \<Rightarrow> nat list \<Rightarrow> int \<Rightarrow> nat list \<times> int" where
  "insertion_sort cmp [] s = ([], s)"
| "insertion_sort cmp (x # xs) s =
     (case insertion_sort cmp xs s of (ys, s') \<Rightarrow> insert_by cmp x ys s')"

definition sample_runtime :: runtime where
  "sample_runtime =
     \<lparr> array_sort = (\<lambda>cmp xs s. fst (insertion_sort cmp xs s)),
       math_random = (\<lambda>n. str ''0.4fzyo82mvyr'') \<rparr>"

section \<open>string-conceal: extraction, encrypted table, decoder prelude\<close>

subsection \<open>encode\<close>

text \<open>
  One alternative of the literal pattern, after its opening quote \<open>q\<close>: the body
  \<open>(?:[^q\\]|\\.)*\<close> and the closing quote. A body character is any unit but the
  quote and the backslash, or a backslash and one unit that is not a line terminator.
  The star is greedy, but a body character never starts with the quote, so giving
  characters back cannot produce a match: the scan is the whole search. The result is
  the text between the quotes and the text after the closing quote.
\<close>

fun literal_body :: "16 word \<Rightarrow> jsstring \<Rightarrow> (jsstring \<times> jsstring) option" where
  "literal_body q [] = None"
| "literal_body q [c] = (if c = q then Some ([], []) else None)"
| "literal_body q (c # e # es) =
     (if c = q then Some ([], e # es)
      else if c = 0x5C then
        (if line_terminator e then None
         else map_option (\<lambda>(t, r). (c # e # t, r)) (literal_body q es))
      else map_option (\<lambda>(t, r). (c # t, r)) (literal_body q (e # es)))"

lemma literal_body_shorter: "literal_body q s = Some (t, r) \<Longrightarrow> length r < length s"
proof (induction q s arbitrary: t rule: literal_body.induct)
  case (1 q)
  then show ?case by simp
next
  case (2 q c)
  then show ?case by (simp split: if_splits)
next
  case (3 q c e es)
  show ?case
  proof (cases "c = q")
    case True
    with 3(3) show ?thesis by simp
  next
    case False
    show ?thesis
    proof (cases "c = 0x5C")
      case True
      with \<open>c \<noteq> q\<close> 3(3) obtain t' where "\<not> line_terminator e" "literal_body q es = Some (t', r)"
        by (auto split: if_splits)
      with 3(1) [OF \<open>c \<noteq> q\<close> True] have "length r < length es" by blast
      then show ?thesis by simp
    next
      case False
      with \<open>c \<noteq> q\<close> 3(3) obtain t' where "literal_body q (e # es) = Some (t', r)"
        by (auto split: if_splits)
      with 3(2) [OF \<open>c \<noteq> q\<close> False] have "length r < length (e # es)" by blast
      then show ?thesis by simp
    qed
  qed
qed

definition placeholder :: "nat \<Rightarrow> jsstring" where
  "placeholder stringIndex = str ''__DECRYPT_PLACEHOLDER__('' @ show_nat stringIndex @ str '')''"

text \<open>
  \<open>code.replace(stringRegex, callback)\<close>: the matches from the left, none overlapping.
  The callback appends the text between the quotes to \<open>strings\<close> and answers the
  placeholder with the index the string got. The result is \<open>strings\<close> and
  \<open>codeWithoutStrings\<close>; \<open>n\<close> is \<open>strings.length\<close> so far.
\<close>

function extract_strings :: "jsstring \<Rightarrow> nat \<Rightarrow> jsstring list \<times> jsstring" where
  "extract_strings [] n = ([], [])"
| "extract_strings (c # cs) n =
     (if c = 0x22 \<or> c = 0x27 then
        (case literal_body c cs of
           Some (t, r) \<Rightarrow>
             (case extract_strings r (Suc n) of (ss, out) \<Rightarrow> (t # ss, placeholder n @ out))
         | None \<Rightarrow> (case extract_strings cs n of (ss, out) \<Rightarrow> (ss, c # out)))
      else (case extract_strings cs n of (ss, out) \<Rightarrow> (ss, c # out)))"
  by pat_completeness auto
termination
  by (relation "measure (\<lambda>(s, n). length s)") (auto dest: literal_body_shorter)

lemma lazy_dots_until_shorter: "lazy_dots_until e s = Some (m, r) \<Longrightarrow> length r \<le> length s"
proof (induction e s arbitrary: m rule: lazy_dots_until.induct)
  case (1 e)
  then show ?case by (simp split: if_splits)
next
  case (2 e c cs)
  show ?case
  proof (cases "prefix e (c # cs)")
    case True
    with 2(2) show ?thesis by auto
  next
    case False
    with 2(2) obtain m' where "\<not> line_terminator c" "lazy_dots_until e cs = Some (m', r)"
      by (auto split: if_splits)
    with 2(1) [OF False] have "length r \<le> length cs" by blast
    then show ?thesis by simp
  qed
qed

text \<open>
  \<open>.replace(/__DECRYPT_PLACEHOLDER__\((.*?)\)/g, `${funcName}($1)`)\<close>. The function
  name is \<open>_D\<close> and base-36 digits, so the replacement text has no \<open>$\<close> pattern
  but \<open>$1\<close>.
\<close>

function replace_placeholders :: "jsstring \<Rightarrow> jsstring \<Rightarrow> jsstring" where
  "replace_placeholders funcName [] = []"
| "replace_placeholders funcName (c # cs) =
     (if prefix (str ''__DECRYPT_PLACEHOLDER__('') (c # cs) then
        (case lazy_dots_until [0x29] (drop 24 (c # cs)) of
           Some (g, r) \<Rightarrow> funcName @ [0x28] @ g @ [0x29] @ replace_placeholders funcName r
         | None \<Rightarrow> c # replace_placeholders funcName cs)
      else c # replace_placeholders funcName cs)"
  by pat_completeness auto
termination
  by (relation "measure (\<lambda>(f, s). length s)") (auto dest!: lazy_dots_until_shorter)

text \<open>\<open>Math.random().toString(36).substring(2, 6)\<close>, at the \<open>n\<close>-th evaluation.\<close>

definition random_suffix :: "runtime \<Rightarrow> nat \<Rightarrow> jsstring" where
  "random_suffix rt n = substring (math_random rt n) 2 6"

definition decoderLogic :: "jsstring \<Rightarrow> jsstring \<Rightarrow> jsstring list \<Rightarrow> jsstring \<Rightarrow> jsstring" where
  "decoderLogic arrayName funcName encryptedStrings encodedKey =
     str ''var '' @ arrayName @ str ''='' @ stringify_strings encryptedStrings
     @ str '';var '' @ funcName @ str ''=function(i){var k='' @ [0x22] @ encodedKey @ [0x22]
     @ str '';return atob('' @ arrayName @ str ''[i]).split('' @ [0x27, 0x27]
     @ str '').map(function(c,j){return String.fromCharCode(c.charCodeAt(0)^atob(k).charCodeAt(j%atob(k).length))}).join(''
     @ [0x27, 0x27] @ str '')};''"

definition sc_log_none :: jsstring where
  "sc_log_none = str ''No strings found to conceal.''"

definition sc_log_encode :: "nat \<Rightarrow> jsstring" where
  "sc_log_encode n =
     str ''Concealed '' @ show_nat n
     @ str '' strings. Deobfuscation can reveal the strings but not reconstruct the code automatically.''"

text \<open>\<open>stringConceal.encode(code, key)\<close>. Only the key is guarded.\<close>

definition sc_encode :: "runtime \<Rightarrow> jsstring \<Rightarrow> jsstring \<Rightarrow> error + codec_result" where
  "sc_encode rt code key =
     (if key = [] then Inl KeyRequiredToConceal
      else case extract_strings code 0 of
        (strings, codeWithoutStrings) \<Rightarrow>
          if strings = [] then Inr \<lparr> result = code, map_log = sc_log_none \<rparr>
          else case map_throwing (\<lambda>s. btoa (xorCipher s key)) strings of
            Inl e \<Rightarrow> Inl e
          | Inr encryptedStrings \<Rightarrow>
              let arrayName = str ''_S'' @ random_suffix rt 0;
                  funcName = str ''_D'' @ random_suffix rt 1
              in case btoa key of
                   Inl e \<Rightarrow> Inl e
                 | Inr encodedKey \<Rightarrow>
                     Inr \<lparr> result = decoderLogic arrayName funcName encryptedStrings encodedKey
                                     @ replace_placeholders funcName codeWithoutStrings,
                           map_log = sc_log_encode (length strings) \<rparr>)"

subsection \<open>decode\<close>

definition alnum :: "16 word \<Rightarrow> bool" where
  "alnum c \<longleftrightarrow> (0x61 \<le> c \<and> c \<le> 0x7A) \<or> (0x41 \<le> c \<and> c \<le> 0x5A) \<or> (0x30 \<le> c \<and> c \<le> 0x39)"

text \<open>
  One attempt of \<open>/var (_S[a-zA-Z0-9]+)=(\[.*?\]);/\<close> at the start of \<open>s\<close>. The name
  is the longest run of the class (no shorter run is followed by \<open>=\<close>); the result is
  the second group.
\<close>

definition match_array :: "jsstring \<Rightarrow> jsstring option" where
  "match_array s =
     (if prefix (str ''var _S'') s then
        (let name = takeWhile alnum (drop 6 s); r = dropWhile alnum (drop 6 s)
         in if name \<noteq> [] \<and> prefix (str ''=['') r
            then map_option (\<lambda>(m, r'). [0x5B] @ m @ [0x5D]) (lazy_dots_until (str ''];'') (drop 2 r))
            else None)
      else None)"

text \<open>One attempt of \<open>/var k="([a-zA-Z0-9=]+)";/\<close> at the start of \<open>s\<close>; the result is
  the group.\<close>

definition match_key :: "jsstring \<Rightarrow> jsstring option" where
  "match_key s =
     (if prefix (str ''var k='' @ [0x22]) s then
        (let k = takeWhile (\<lambda>c. alnum c \<or> c = 0x3D) (drop 7 s);
             r = dropWhile (\<lambda>c. alnum c \<or> c = 0x3D) (drop 7 s)
         in if k \<noteq> [] \<and> prefix [0x22, 0x3B] r then Some k else None)
      else None)"

definition sc_result_decode :: jsstring where
  "sc_result_decode =
     str ''// Code cannot be automatically reconstructed.'' @ [0x0A]
     @ str ''// See the map/log for the list of revealed strings.''"

text \<open>The enumeration \<open>i: "s"\<close>, one line for each revealed string.\<close>

definition revealed_lines :: "jsstring list \<Rightarrow> jsstring" where
  "revealed_lines decryptedStrings =
     join [0x0A]
       (map (\<lambda>(i, s). show_nat i @ str '': '' @ [0x22] @ s @ [0x22]) (enumerate 0 decryptedStrings))"

definition sc_log_decode :: "jsstring list \<Rightarrow> jsstring" where
  "sc_log_decode decryptedStrings =
     str ''Revealed strings from the concealed array:'' @ [0x0A, 0x0A]
     @ revealed_lines decryptedStrings"

text \<open>The body of the \<open>try\<close> block.\<close>

definition sc_decode_body :: "jsstring \<Rightarrow> jsstring \<Rightarrow> error + codec_result" where
  "sc_decode_body code key =
     (case (regex_search match_array code, regex_search match_key code) of
        (Some arrayText, Some encodedKey) \<Rightarrow>
          (case parse_array arrayText of
             None \<Rightarrow> Inl JsonNotParsed
           | Some encryptedStrings \<Rightarrow>
               (case btoa key of
                  Inl e \<Rightarrow> Inl e
                | Inr k \<Rightarrow>
                    if k \<noteq> encodedKey then Inl KeyIncorrect
                    else
                      (case map_throwing
                              (\<lambda>s. case atob (to_string s) of
                                      Inl e \<Rightarrow> Inl e
                                    | Inr t \<Rightarrow> Inr (xorCipher t key)) encryptedStrings of
                         Inl e \<Rightarrow> Inl e
                       | Inr decryptedStrings \<Rightarrow>
                           Inr \<lparr> result = sc_result_decode,
                                 map_log = sc_log_decode decryptedStrings \<rparr>)))
      | _ \<Rightarrow> Inl ArrayOrKeyNotFound)"

text \<open>\<open>stringConceal.decode(code, key)\<close>.\<close>

definition sc_decode :: "jsstring \<Rightarrow> jsstring \<Rightarrow> error + codec_result" where
  "sc_decode code key =
     (if key = [] then Inl KeyRequiredToReveal
      else case sc_decode_body code key of
             Inl e \<Rightarrow> Inl (RevealFailed e)
           | Inr r \<Rightarrow> Inr r)"

section \<open>lexical-scramble: identifiers, generated names, rewrite, minify\<close>

subsection \<open>getIdentifiers\<close>

text \<open>After \<open>/*\<close>: the text after the first \<open>*/\<close> (the lazy \<open>[\s\S]*?\*\/\<close>).\<close>

fun block_comment_end :: "jsstring \<Rightarrow> jsstring option" where
  "block_comment_end (a # b # cs) =
     (if a = 0x2A \<and> b = 0x2F then Some cs else block_comment_end (b # cs))"
| "block_comment_end [a] = None"
| "block_comment_end [] = None"

lemma block_comment_end_shorter: "block_comment_end s = Some r \<Longrightarrow> length r < length s"
proof (induction s rule: block_comment_end.induct)
  case (1 a b cs)
  show ?case
  proof (cases "a = 0x2A \<and> b = 0x2F")
    case True
    with 1(2) show ?thesis by auto
  next
    case False
    with 1(2) have "block_comment_end (b # cs) = Some r" by auto
    with 1(1) [OF False] show ?thesis by simp
  qed
qed simp_all

text \<open>
  \<open>.replace(/\/\*[\s\S]*?\*\/|\/\/.*/g, '')\<close>: a block comment that is closed, or
  \<open>//\<close> and the rest of the line. An unclosed \<open>/*\<close> matches neither alternative
  and stays.
\<close>

function strip_comments :: "jsstring \<Rightarrow> jsstring" where
  "strip_comments [] = []"
| "strip_comments [c] = [c]"
| "strip_comments (c # d # ds) =
     (if c = 0x2F \<and> d = 0x2A then
        (case block_comment_end ds of
           Some r \<Rightarrow> strip_comments r
         | None \<Rightarrow> c # strip_comments (d # ds))
      else if c = 0x2F \<and> d = 0x2F then strip_comments (dropWhile (\<lambda>x. \<not> line_terminator x) ds)
      else c # strip_comments (d # ds))"
  by pat_completeness auto
termination
  by (relation "measure length")
     (auto dest!: block_comment_end_shorter simp: less_Suc_eq_le le_SucI length_dropWhile_le)

text \<open>
  The pattern \<open>(["'`])(?:(?=(\\?))\2.)*?\1\<close> after its opening quote \<open>q\<close>. The lazy
  group first looks for the closing quote; otherwise it takes a backslash together with
  the next unit, or one unit, never a line terminator. The result is the text after the
  closing quote.
\<close>

fun quoted_end :: "16 word \<Rightarrow> jsstring \<Rightarrow> jsstring option" where
  "quoted_end q [] = None"
| "quoted_end q [c] = (if c = q then Some [] else None)"
| "quoted_end q (c # e # es) =
     (if c = q then Some (e # es)
      else if c = 0x5C then (if line_terminator e then None else quoted_end q es)
      else if line_terminator c then None
      else quoted_end q (e # es))"

lemma quoted_end_shorter: "quoted_end q s = Some r \<Longrightarrow> length r \<le> length s"
proof (induction q s rule: quoted_end.induct)
  case (1 q)
  then show ?case by simp
next
  case (2 q c)
  then show ?case by (simp split: if_splits)
next
  case (3 q c e es)
  show ?case
  proof (cases "c = q")
    case True
    with 3(3) show ?thesis by auto
  next
    case False
    show ?thesis
    proof (cases "c = 0x5C")
      case True
      with \<open>c \<noteq> q\<close> 3(3) have "\<not> line_terminator e" "quoted_end q es = Some r"
        by (auto split: if_splits)
      with 3(1) [OF \<open>c \<noteq> q\<close> True] show ?thesis by simp
    next
      case False
      with \<open>c \<noteq> q\<close> 3(3) have "\<not> line_terminator c" "quoted_end q (e # es) = Some r"
        by (auto split: if_splits)
      with 3(2) [OF \<open>c \<noteq> q\<close> False] show ?thesis by simp
    qed
  qed
qed

function strip_strings :: "jsstring \<Rightarrow> jsstring" where
  "strip_strings [] = []"
| "strip_strings (c # cs) =
     (if c = 0x22 \<or> c = 0x27 \<or> c = 0x60 then
        (case quoted_end c cs of
           Some r \<Rightarrow> strip_strings r
         | None \<Rightarrow> c # strip_strings cs)
      else c # strip_strings cs)"
  by pat_completeness auto
termination
  by (relation "measure length") (auto dest!: quoted_end_shorter)

definition keywords_set :: "jsstring list" where
  "keywords_set = map str
     [''break'', ''case'', ''catch'', ''continue'', ''debugger'', ''default'', ''delete'', ''do'',
      ''else'', ''finally'', ''for'', ''function'', ''if'', ''in'', ''instanceof'', ''new'',
      ''return'', ''switch'', ''this'', ''throw'', ''try'', ''typeof'', ''var'', ''let'', ''const'',
      ''void'', ''while'', ''with'', ''class'', ''enum'', ''export'', ''extends'', ''import'',
      ''super'', ''implements'', ''interface'', ''package'', ''private'', ''protected'', ''public'',
      ''static'', ''yield'', ''await'', ''null'', ''true'', ''false'', ''undefined'', ''document'',
      ''window'', ''console'']"

definition ident_start :: "16 word \<Rightarrow> bool" where
  "ident_start c \<longleftrightarrow>
     (0x61 \<le> c \<and> c \<le> 0x7A) \<or> (0x41 \<le> c \<and> c \<le> 0x5A) \<or> c = 0x5F \<or> c = 0x24"

definition ident_part :: "16 word \<Rightarrow> bool" where
  "ident_part c \<longleftrightarrow> ident_start c \<or> (0x30 \<le> c \<and> c \<le> 0x39)"

text \<open>
  The \<open>exec\<close> loop of \<open>/[a-zA-Z_$][a-zA-Z0-9_$]*/g\<close>: each match is a start character
  and the longest run after it. \<open>identifiers\<close> is the \<open>Set\<close> so far, in insertion
  order.
\<close>

function scan_identifiers :: "jsstring \<Rightarrow> jsstring list \<Rightarrow> jsstring list" where
  "scan_identifiers [] identifiers = identifiers"
| "scan_identifiers (c # cs) identifiers =
     (if ident_start c then
        (let match = c # takeWhile ident_part cs
         in scan_identifiers (dropWhile ident_part cs)
              (if match \<in> set keywords_set \<or> match \<in> set identifiers then identifiers
               else identifiers @ [match]))
      else scan_identifiers cs identifiers)"
  by pat_completeness auto
termination
  by (relation "measure (\<lambda>(s, ids). length s)") (auto simp: less_Suc_eq_le length_dropWhile_le)

definition getIdentifiers :: "jsstring \<Rightarrow> jsstring list" where
  "getIdentifiers code = scan_identifiers (strip_strings (strip_comments code)) []"

subsection \<open>generateName\<close>

definition alphabet :: jsstring where
  "alphabet = str ''abcdefghijklmnopqrstuvwxyzABCDEFGHIJKLMNOPQRSTUVWXYZ_''"

text \<open>
  The \<open>do ... while (n >= 0)\<close> loop. The index is an array index, a natural number;
  \<open>Math.floor(n / alphabet.length) - 1 >= 0\<close> says that the quotient is at least 1.
\<close>

function generateName_loop :: "nat \<Rightarrow> jsstring \<Rightarrow> jsstring" where
  "generateName_loop n name =
     (let name' = alphabet ! (n mod length alphabet) # name
      in if 1 \<le> n div length alphabet
         then generateName_loop (n div length alphabet - 1) name'
         else name')"
  by pat_completeness auto
termination
  by (relation "measure fst") (auto simp: alphabet_def str_def)

declare generateName_loop.simps [simp del]

definition generateName :: "nat \<Rightarrow> jsstring" where
  "generateName n = generateName_loop n []"

subsection \<open>Whole-word replacement\<close>

text \<open>
  \<open>new RegExp(`\\b${name}\\b`, 'g')\<close> for a name over letters, digits, \<open>_\<close> and
  \<open>$\<close>. In the pattern a letter, digit or underscore stands for itself and \<open>$\<close> is
  the end-of-input assertion. Names with other characters build other patterns and are
  not modelled (\<open>PatternNotModelled\<close>).
\<close>

definition word_char :: "16 word \<Rightarrow> bool" where
  "word_char c \<longleftrightarrow> alnum c \<or> c = 0x5F"

text \<open>\<open>\b\<close> between the unit before the position and the unit at it (\<open>None\<close> outside
  the input).\<close>

definition boundary :: "16 word option \<Rightarrow> 16 word option \<Rightarrow> bool" where
  "boundary prev nxt \<longleftrightarrow>
     (case prev of None \<Rightarrow> False | Some c \<Rightarrow> word_char c)
     \<noteq> (case nxt of None \<Rightarrow> False | Some c \<Rightarrow> word_char c)"

definition head_unit :: "jsstring \<Rightarrow> 16 word option" where
  "head_unit s = (case s of [] \<Rightarrow> None | c # cs \<Rightarrow> Some c)"

text \<open>The characters of the name against the input; the result is the input left.\<close>

fun match_name :: "jsstring \<Rightarrow> jsstring \<Rightarrow> jsstring option" where
  "match_name [] s = Some s"
| "match_name (x # xs) s =
     (if x = 0x24 then (if s = [] then match_name xs s else None)
      else (case s of [] \<Rightarrow> None | c # cs \<Rightarrow> if c = x then match_name xs cs else None))"

lemma match_name_shorter: "match_name name s = Some r \<Longrightarrow> length r \<le> length s"
proof (induction name s rule: match_name.induct)
  case (1 s)
  then show ?case by simp
next
  case (2 x xs s)
  show ?case
  proof (cases "x = 0x24")
    case True
    with 2(3) have "s = []" "match_name xs s = Some r" by (auto split: if_splits)
    with 2(1) [OF True] show ?thesis by simp
  next
    case False
    with 2(3) obtain c cs where s: "s = c # cs" "c = x" "match_name xs cs = Some r"
      by (auto split: list.splits if_splits)
    with 2(2) [OF False s(1)] show ?thesis by simp
  qed
qed

text \<open>One attempt of the pattern at a position: the matched text and the input after
  it. \<open>prev\<close> is the unit in front of the position.\<close>

definition match_word ::
  "jsstring \<Rightarrow> 16 word option \<Rightarrow> jsstring \<Rightarrow> (jsstring \<times> jsstring) option" where
  "match_word name prev s =
     (if boundary prev (head_unit s) then
        (case match_name name s of
           None \<Rightarrow> None
         | Some r \<Rightarrow>
             (let matched = take (length s - length r) s
              in if boundary (if matched = [] then prev else Some (last matched)) (head_unit r)
                 then Some (matched, r) else None))
      else None)"

lemma match_word_shorter:
  "match_word name prev s = Some (matched, r) \<Longrightarrow> matched \<noteq> [] \<Longrightarrow> length r < length s"
  by (auto simp: match_word_def Let_def split: if_splits option.splits dest!: match_name_shorter)

text \<open>
  \<open>s.replace(re, replacement)\<close> with the \<open>g\<close> flag: after a match the search goes on
  behind it; after an empty match (a name of \<open>$\<close> only, at the end of the input) it
  goes on one unit further.
\<close>

function replace_words ::
  "jsstring \<Rightarrow> jsstring \<Rightarrow> 16 word option \<Rightarrow> jsstring \<Rightarrow> jsstring" where
  "replace_words name replacement prev s =
     (case match_word name prev s of
        Some (matched, r) \<Rightarrow>
          if matched = [] then
            (case s of
               [] \<Rightarrow> replacement
             | c # cs \<Rightarrow> replacement @ c # replace_words name replacement (Some c) cs)
          else replacement @ replace_words name replacement (Some (last matched)) r
      | None \<Rightarrow>
          (case s of
             [] \<Rightarrow> []
           | c # cs \<Rightarrow> c # replace_words name replacement (Some c) cs))"
  by pat_completeness auto
termination
  by (relation "measure (\<lambda>(name, replacement, prev, s). length s)")
     (auto dest: match_word_shorter)

declare replace_words.simps [simp del]

text \<open>The replacement text: \<open>$$\<close> stands for one \<open>$\<close>. The pattern has no group, so
  \<open>$\<close> before a digit stays; the other \<open>$\<close> patterns need a character that no
  modelled name has.\<close>

fun expand_replacement :: "jsstring \<Rightarrow> jsstring" where
  "expand_replacement (a # b # cs) =
     (if a = 0x24 \<and> b = 0x24 then 0x24 # expand_replacement cs
      else a # expand_replacement (b # cs))"
| "expand_replacement [a] = [a]"
| "expand_replacement [] = []"

definition replace_name :: "jsstring \<Rightarrow> jsstring \<Rightarrow> jsstring \<Rightarrow> jsstring" where
  "replace_name name replacement s =
     replace_words name (expand_replacement replacement) None s"

subsection \<open>encode\<close>

text \<open>\<open>.replace(/\s+/g, ' ')\<close>.\<close>

function collapse_whitespace :: "jsstring \<Rightarrow> jsstring" where
  "collapse_whitespace [] = []"
| "collapse_whitespace (c # cs) =
     (if js_whitespace c then 0x20 # collapse_whitespace (dropWhile js_whitespace cs)
      else c # collapse_whitespace cs)"
  by pat_completeness auto
termination
  by (relation "measure length") (auto simp: less_Suc_eq_le length_dropWhile_le)

definition minify :: "jsstring \<Rightarrow> jsstring" where
  "minify s = collapse_whitespace (strip_comments s)"

text \<open>
  \<open>identifiers.sort((a, b) => b.length - a.length)\<close>: this comparison is consistent,
  and the sort is stable, so the result is the stable sort by descending length.
\<close>

definition sort_longest_first :: "jsstring list \<Rightarrow> jsstring list" where
  "sort_longest_first xs = sort_key (\<lambda>s. - int (length s)) xs"

text \<open>The rename table \<open>nameMap\<close>, in insertion order.\<close>

definition nameMap :: "jsstring list \<Rightarrow> (jsstring \<times> jsstring) list" where
  "nameMap identifiers = map (\<lambda>(i, oldName). (oldName, generateName i)) (enumerate 0 identifiers)"

text \<open>\<open>JSON.stringify(Object.fromEntries(nameMap), null, 2)\<close>. The keys are
  identifiers, all different and none an array index, so the object lists them in
  insertion order.\<close>

definition stringify_table :: "(jsstring \<times> jsstring) list \<Rightarrow> jsstring" where
  "stringify_table entries =
     (if entries = [] then str ''{}''
      else str ''{'' @ [0x0A]
           @ join [0x2C, 0x0A]
               (map (\<lambda>(k, v). str ''  '' @ json_string k @ str '': '' @ json_string v) entries)
           @ [0x0A] @ str ''}'')"

text \<open>\<open>lexicalScramble.encode(code)\<close>; it has no guard and throws nothing.\<close>

definition ls_encode :: "jsstring \<Rightarrow> codec_result" where
  "ls_encode code =
     (let table = nameMap (sort_longest_first (getIdentifiers code));
          scrambledCode = fold (\<lambda>(oldName, newName) c. replace_name oldName newName c) table code
      in \<lparr> result = minify scrambledCode, map_log = stringify_table table \<rparr>)"

subsection \<open>decode\<close>

text \<open>
  \<open>JSON.parse(mapJson)\<close> and \<open>Object.entries\<close>, modelled on objects whose values are
  string literals and whose keys are not array indices. A key that comes twice keeps
  its first place and its last value. \<open>None\<close> is the SyntaxError or a text outside this
  fragment, as for arrays: also valid JSON that is no object of strings, such as \<open>[]\<close>,
  on which the code goes on with the entries that \<open>Object.entries\<close> gives. No statement
  below is about such a text.
\<close>

fun set_entry :: "jsstring \<Rightarrow> jsstring \<Rightarrow> (jsstring \<times> jsstring) list \<Rightarrow> (jsstring \<times> jsstring) list" where
  "set_entry k v [] = [(k, v)]"
| "set_entry k v ((k', v') # es) = (if k = k' then (k, v) # es else (k', v') # set_entry k v es)"

function parse_members ::
  "jsstring \<Rightarrow> (jsstring \<times> jsstring) list \<Rightarrow> (jsstring \<times> jsstring) list option" where
  "parse_members s acc =
     (case skip_ws s of
        [] \<Rightarrow> None
      | q # ks \<Rightarrow>
          if q \<noteq> 0x22 then None
          else (case parse_string_body ks of
            None \<Rightarrow> None
          | Some (k, r1) \<Rightarrow>
              (case skip_ws r1 of
                 [] \<Rightarrow> None
               | colon # r2 \<Rightarrow>
                   if colon \<noteq> 0x3A then None
                   else (case skip_ws r2 of
                     [] \<Rightarrow> None
                   | q' # vs \<Rightarrow>
                       if q' \<noteq> 0x22 then None
                       else (case parse_string_body vs of
                         None \<Rightarrow> None
                       | Some (v, r3) \<Rightarrow>
                           (case skip_ws r3 of
                              [] \<Rightarrow> None
                            | c # cs \<Rightarrow>
                                if c = 0x2C then
                                  (if length cs < length s
                                   then parse_members cs (set_entry k v acc) else None)
                                else if c = 0x7D \<and> skip_ws cs = []
                                then Some (set_entry k v acc)
                                else None))))))"
  by pat_completeness auto
termination
  by (relation "measure (\<lambda>(s, acc). length s)") auto

declare parse_members.simps [simp del]

definition array_index_key :: "jsstring \<Rightarrow> bool" where
  "array_index_key k \<longleftrightarrow> k \<noteq> [] \<and> list_all is_digit k"

definition parse_table :: "jsstring \<Rightarrow> (jsstring \<times> jsstring) list option" where
  "parse_table s =
     (case skip_ws s of
        [] \<Rightarrow> None
      | c # cs \<Rightarrow>
          if c \<noteq> 0x7B then None
          else (case skip_ws cs of
                  [] \<Rightarrow> None
                | d # ds \<Rightarrow>
                    if d = 0x7D then (if skip_ws ds = [] then Some [] else None)
                    else (case parse_members cs [] of
                            None \<Rightarrow> None
                          | Some entries \<Rightarrow>
                              if list_ex (\<lambda>(k, v). array_index_key k) entries then None
                              else Some entries)))"

definition ls_log_decode :: jsstring where
  "ls_log_decode = str ''Successfully deobfuscated using the provided map.''"

text \<open>
  \<open>lexicalScramble.decode(scrambledCode, mapJson)\<close>.
  \<open>entries.sort((a, b) => b[1].length - a[1].length)\<close> is the stable sort by descending
  length of the new name; each new name is then replaced by the old one.
\<close>

definition ls_decode :: "jsstring \<Rightarrow> jsstring \<Rightarrow> error + codec_result" where
  "ls_decode scrambledCode mapJson =
     (if mapJson = [] then Inl MapRequired
      else case parse_table mapJson of
        None \<Rightarrow> Inl (DeobfuscateFailed JsonNotParsed)
      | Some table \<Rightarrow>
          if list_all (\<lambda>(oldName, newName). list_all ident_part oldName \<and> list_all ident_part newName)
               table
          then
            let entries = sort_key (\<lambda>(oldName, newName). - int (length newName)) table
            in Inr \<lparr> result = fold (\<lambda>(oldName, newName) c. replace_name newName oldName c)
                                 entries scrambledCode,
                      map_log = ls_log_decode \<rparr>
          else Inl (DeobfuscateFailed PatternNotModelled))"

section \<open>The length bounds of the two parsers\<close>

text \<open>
  \<open>parse_elements\<close> and \<open>parse_members\<close> go on only when the text left is shorter,
  which makes their recursion terminate. The text left is always shorter: the test
  never fails, and both functions satisfy their equations without it.
\<close>

lemma parse_string_body_shorter:
  "parse_string_body s = Some (t, r) \<Longrightarrow> length r < length s"
proof (induction s arbitrary: t rule: length_induct)
  case (1 s)
  from 1(2) obtain c cs where s: "s = c # cs" by (cases s) auto
  show ?case
  proof (cases "c = 0x22")
    case True
    with 1(2) s show ?thesis by simp
  next
    case q: False
    show ?thesis
    proof (cases "c = 0x5C")
      case False
      with q 1(2) s obtain t' where "parse_string_body cs = Some (t', r)"
        by (auto split: if_splits)
      with 1(1) s have "length r < length cs" by auto
      with s show ?thesis by simp
    next
      case True
      with q 1(2) s obtain e es where cs: "cs = e # es"
        by (cases cs) (auto split: if_splits)
      show ?thesis
      proof (cases "simple_escape e")
        case (Some u)
        with True q 1(2) s cs obtain t' where "parse_string_body es = Some (t', r)"
          by (auto split: if_splits)
        with 1(1) s cs have "length r < length es" by auto
        with s cs show ?thesis by simp
      next
        case None
        with True q 1(2) s cs obtain h1 h2 h3 h4 rest t' where
          es: "es = h1 # h2 # h3 # h4 # rest" and "parse_string_body rest = Some (t', r)"
          by (auto split: if_splits list.splits option.splits)
        with 1(1) s cs have "length r < length rest" by auto
        with s cs es show ?thesis by simp
      qed
    qed
  qed
qed

lemma length_skip_ws: "length (skip_ws s) \<le> length s"
  by (simp add: skip_ws_def length_dropWhile_le)

lemma parse_scalar_shorter: "parse_scalar s = Some (v, r) \<Longrightarrow> length r < length s"
proof -
  assume a: "parse_scalar s = Some (v, r)"
  then obtain c cs where s: "s = c # cs" by (cases s) (auto simp: parse_scalar_def)
  show ?thesis
  proof (cases "c = 0x22")
    case True
    with a s obtain t where "parse_string_body cs = Some (t, r)"
      by (auto simp: parse_scalar_def)
    from parse_string_body_shorter [OF this] s show ?thesis by simp
  next
    case q: False
    show ?thesis
    proof (cases "is_digit c")
      case True
      with q a s have "r = dropWhile is_digit cs"
        by (auto simp: parse_scalar_def Let_def split: if_splits)
      with s length_dropWhile_le [of is_digit cs] show ?thesis by simp
    next
      case False
      with q a s have t: "take 4 s = str ''null''" and r: "r = drop 4 s"
        by (auto simp: parse_scalar_def split: if_splits)
      from t have "length (take 4 s) = 4" by (simp add: str_def)
      then have "4 \<le> length s" by simp
      with r show ?thesis by simp
    qed
  qed
qed

text \<open>The bound in \<open>parse_elements\<close> always holds.\<close>

lemma parse_elements_unfold:
  "parse_elements s =
     (case parse_scalar (skip_ws s) of
        None \<Rightarrow> None
      | Some (v, r) \<Rightarrow>
          (case skip_ws r of
             [] \<Rightarrow> None
           | c # cs \<Rightarrow>
               if c = 0x2C then map_option ((#) v) (parse_elements cs)
               else if c = 0x5D \<and> skip_ws cs = [] then Some [v]
               else None))"
proof (cases "parse_scalar (skip_ws s)")
  case None
  then show ?thesis by (subst parse_elements.simps) simp
next
  case (Some p)
  obtain v r where p: "p = (v, r)" by (cases p)
  show ?thesis
  proof (cases "skip_ws r")
    case Nil
    with Some p show ?thesis by (subst parse_elements.simps) simp
  next
    case (Cons c cs)
    from Some p have "length r < length (skip_ws s)" by (auto dest: parse_scalar_shorter)
    with length_skip_ws [of s] have "length r < length s" by simp
    moreover from Cons length_skip_ws [of r] have "length cs < length r" by simp
    ultimately have "length cs < length s" by simp
    with Some p Cons show ?thesis by (subst parse_elements.simps) simp
  qed
qed


lemma skip_ws_Cons_length: "skip_ws s = c # cs \<Longrightarrow> length cs < length s"
  using length_skip_ws [of s] by simp

text \<open>The bound in \<open>parse_members\<close> always holds.\<close>

lemma parse_members_unfold:
  "parse_members s acc =
     (case skip_ws s of
        [] \<Rightarrow> None
      | q # ks \<Rightarrow>
          if q \<noteq> 0x22 then None
          else (case parse_string_body ks of
            None \<Rightarrow> None
          | Some (k, r1) \<Rightarrow>
              (case skip_ws r1 of
                 [] \<Rightarrow> None
               | colon # r2 \<Rightarrow>
                   if colon \<noteq> 0x3A then None
                   else (case skip_ws r2 of
                     [] \<Rightarrow> None
                   | q' # vs \<Rightarrow>
                       if q' \<noteq> 0x22 then None
                       else (case parse_string_body vs of
                         None \<Rightarrow> None
                       | Some (v, r3) \<Rightarrow>
                           (case skip_ws r3 of
                              [] \<Rightarrow> None
                            | c # cs \<Rightarrow>
                                if c = 0x2C then parse_members cs (set_entry k v acc)
                                else if c = 0x7D \<and> skip_ws cs = []
                                then Some (set_entry k v acc)
                                else None))))))"
  by (subst parse_members.simps)
     (auto split: list.splits option.splits
           dest!: skip_ws_Cons_length parse_string_body_shorter)

section \<open>The generator\<close>

lemma js_rem_nonneg: "0 \<le> a \<Longrightarrow> 0 < b \<Longrightarrow> js_rem a b = a mod b"
  by (cases "a = 0") (simp_all add: js_rem_def)

text \<open>From a seed that is not negative the draw is in \<open>[0, 1)\<close> and the next state is
  the remainder modulo 233280, itself not negative.\<close>

lemma seededRandom_nonneg:
  assumes "0 \<le> seed"
  shows "snd (seededRandom seed) = (seed * 9301 + 49297) mod 233280"
    and "0 \<le> snd (seededRandom seed)"
    and "0 \<le> fst (seededRandom seed)" and "fst (seededRandom seed) < 1"
proof -
  from assms have "0 \<le> seed * 9301 + 49297" by simp
  then have r: "js_rem (seed * 9301 + 49297) 233280 = (seed * 9301 + 49297) mod 233280"
    by (simp add: js_rem_nonneg)
  show "snd (seededRandom seed) = (seed * 9301 + 49297) mod 233280"
    by (simp add: seededRandom_def Let_def r)
  show "0 \<le> snd (seededRandom seed)"
    by (simp add: seededRandom_def Let_def r)
  show "0 \<le> fst (seededRandom seed)"
    by (simp add: seededRandom_def Let_def r)
  have "(seed * 9301 + 49297) mod 233280 < 233280" by simp
  then have "real_of_int ((seed * 9301 + 49297) mod 233280) < 233280"
    by linarith
  then show "fst (seededRandom seed) < 1"
    by (simp add: seededRandom_def Let_def r)
qed

text \<open>
  C2. Claim: for every seed the seed hash produces, also from a non-empty key, each draw
  sets the state to \<open>(S * 9301 + 49297) mod 233280\<close> and returns a value in \<open>[0, 1)\<close>.
  The seed hash is a signed 32-bit integer and \<open>%\<close> keeps the sign of the dividend:
  the key \<open>secret\<close> hashes to a negative seed, the state after the first draw is
  negative (it is not the residue modulo 233280, which is 44737), and the value returned
  is below 0.
\<close>

theorem seededRandom_negative_draw:
  "createSeed (str ''secret'') = - 906277200
   \<and> seededRandom (createSeed (str ''secret'')) = (- (188543 / 233280), - 188543)
   \<and> (createSeed (str ''secret'') * 9301 + 49297) mod 233280 = 44737
   \<and> fst (seededRandom (createSeed (str ''secret''))) < 0"
  by (simp add: createSeed_def str_def cu_def createSeed_step_def seededRandom_def js_rem_def
        Let_def)

section \<open>lana-vortex: the guards and the independence of the ambient runtime\<close>

text \<open>
  C10. \<open>lanaVortex.decode\<close> with an empty artifact or an empty key fails with the error
  of its guard; the result is this error itself, not wrapped by the \<open>catch\<close> of the
  block that reads the artifact, and no result object is returned.
\<close>

theorem lv_decode_rejects_empty:
  "encodedCode = [] \<or> key = [] \<Longrightarrow> lv_decode encodedCode key = Inl DecodeArgsRequired"
  by (auto simp: lv_decode_def)

theorem lv_decode_rejects_empty_witness:
  "lv_decode [] (str ''ab'') = Inl DecodeArgsRequired
   \<and> lv_decode (str ''var p=[]'') [] = Inl DecodeArgsRequired"
  using lv_decode_rejects_empty [of "[]" "str ''ab''"]
        lv_decode_rejects_empty [of "str ''var p=[]''" "[]"]
  by simp

text \<open>
  C3. Two calls of \<open>lanaVortex.encode\<close> with the same text and key return the same
  object, whatever else differs between the two calls: the call reads nothing of the
  runtime but the engine's sort procedure, in particular not \<open>Math.random\<close>.
\<close>

theorem lv_encode_deterministic:
  "array_sort rt = array_sort rt' \<Longrightarrow> lv_encode rt code key = lv_encode rt' code key"
  by (simp add: lv_encode_def shuffledIndices_def)

theorem lv_encode_deterministic_witness:
  "lv_encode sample_runtime (str ''ab'') (str ''k'')
   = lv_encode (sample_runtime\<lparr>math_random := (\<lambda>n. str ''0.9zz'')\<rparr>) (str ''ab'') (str ''k'')"
  using lv_encode_deterministic
          [of sample_runtime "sample_runtime\<lparr>math_random := (\<lambda>n. str ''0.9zz'')\<rparr>"
              "str ''ab''" "str ''k''"]
  by simp

section \<open>lana-vortex: the permutation map\<close>

lemma trim_id: "s \<noteq> [] \<Longrightarrow> \<not> js_whitespace (hd s) \<Longrightarrow> \<not> js_whitespace (last s) \<Longrightarrow> trim s = s"
proof -
  assume s: "s \<noteq> []" and h: "\<not> js_whitespace (hd s)" and l: "\<not> js_whitespace (last s)"
  from s h have 1: "dropWhile js_whitespace s = s" by (cases s) simp_all
  from s l have 2: "dropWhile js_whitespace (rev s) = rev s"
    by (cases "rev s") (simp_all add: last_rev [symmetric] hd_rev del: last_rev)
  show ?thesis by (simp add: trim_def 1 2)
qed

lemma trim_wrapper: "trim (wrapper p m d) = wrapper p m d"
proof (rule trim_id)
  show "wrapper p m d \<noteq> []" by (simp add: wrapper_def str_def)
  show "\<not> js_whitespace (hd (wrapper p m d))"
    by (simp add: wrapper_def str_def cu_def js_whitespace_def)
  show "\<not> js_whitespace (last (wrapper p m d))"
    by (simp add: wrapper_def str_def cu_def js_whitespace_def)
qed

lemma length_array_set: "i < length xs \<Longrightarrow> length (array_set xs i v) = length xs"
  by (simp add: array_set_def)

lemma fold_array_set:
  assumes "distinct is" and "\<forall>i \<in> set is. i < length acc"
  shows "length (fold (\<lambda>(newIndex, originalIndex) m. array_set m originalIndex newIndex)
                   (enumerate k is) acc) = length acc
         \<and> (\<forall>j<length is.
               fold (\<lambda>(newIndex, originalIndex) m. array_set m originalIndex newIndex)
                    (enumerate k is) acc ! (is ! j) = Some (k + j))
         \<and> (\<forall>i<length acc. i \<notin> set is \<longrightarrow>
               fold (\<lambda>(newIndex, originalIndex) m. array_set m originalIndex newIndex)
                    (enumerate k is) acc ! i = acc ! i)"
  using assms
proof (induction "is" arbitrary: k acc)
  case Nil
  then show ?case by simp
next
  case (Cons a "is")
  let ?acc = "array_set acc a k"
  let ?f = "fold (\<lambda>(newIndex, originalIndex) m. array_set m originalIndex newIndex)"
  from Cons.prems have a: "a < length acc" "a \<notin> set is" "distinct is"
    and rest: "\<forall>i \<in> set is. i < length acc" by auto
  have len: "length ?acc = length acc" using a by (simp add: array_set_def)
  from rest len have rest': "\<forall>i \<in> set is. i < length ?acc" by simp
  note IH = Cons.IH [OF a(3) rest', of "Suc k"]
  have step: "?f (enumerate k (a # is)) acc = ?f (enumerate (Suc k) is) ?acc" by simp
  have acc_a: "?acc ! a = Some k" using a by (simp add: array_set_def)
  have acc_other: "\<And>i. i < length acc \<Longrightarrow> i \<noteq> a \<Longrightarrow> ?acc ! i = acc ! i"
    using a by (simp add: array_set_def)
  show ?case
  proof (intro conjI allI impI)
    show "length (?f (enumerate k (a # is)) acc) = length acc"
      using IH len by (simp only: step)
  next
    fix j assume j: "j < length (a # is)"
    show "?f (enumerate k (a # is)) acc ! ((a # is) ! j) = Some (k + j)"
    proof (cases j)
      case 0
      from IH a len have "?f (enumerate (Suc k) is) ?acc ! a = ?acc ! a" by simp
      with acc_a 0 show ?thesis by (simp only: step) simp
    next
      case (Suc j')
      with j have "j' < length is" by simp
      with IH have "?f (enumerate (Suc k) is) ?acc ! (is ! j') = Some (Suc k + j')" by blast
      with Suc show ?thesis by (simp only: step) simp
    qed
  next
    fix i assume i: "i < length acc" "i \<notin> set (a # is)"
    then have "i \<noteq> a" "i \<notin> set is" by auto
    with IH i len have "?f (enumerate (Suc k) is) ?acc ! i = ?acc ! i" by simp
    with acc_other [OF i(1) \<open>i \<noteq> a\<close>] show "?f (enumerate k (a # is)) acc ! i = acc ! i"
      by (simp only: step)
  qed
qed

lemma originalOrderMap_permutation:
  assumes "mset is = mset [0..<n]"
  shows "length (originalOrderMap n is) = n"
    and "\<forall>j<n. originalOrderMap n is ! (is ! j) = Some j"
    and "\<forall>v<n. \<exists>!i. i < n \<and> originalOrderMap n is ! i = Some v"
proof -
  from assms have d: "distinct is"
    by (metis distinct_upt mset_eq_imp_distinct_iff)
  from assms have s: "set is = {0..<n}"
    by (metis mset_eq_setD set_upt)
  from assms have l: "length is = n"
    by (metis length_upt mset_eq_length minus_nat.diff_0)
  have b: "\<forall>i \<in> set is. i < length (replicate n (None :: nat option))" using s by simp
  note F = fold_array_set [OF d b, of 0, folded originalOrderMap_def]
  from F show len: "length (originalOrderMap n is) = n" by simp
  from F l show at: "\<forall>j<n. originalOrderMap n is ! (is ! j) = Some j" by simp
  show "\<forall>v<n. \<exists>!i. i < n \<and> originalOrderMap n is ! i = Some v"
  proof (intro allI impI)
    fix v assume v: "v < n"
    show "\<exists>!i. i < n \<and> originalOrderMap n is ! i = Some v"
    proof (rule ex1I [of _ "is ! v"])
      from v l s show "is ! v < n \<and> originalOrderMap n is ! (is ! v) = Some v"
        using at nth_mem [of v "is"] by auto
    next
      fix i assume i: "i < n \<and> originalOrderMap n is ! i = Some v"
      with s have "i \<in> set is" by simp
      then obtain j where j: "j < length is" "is ! j = i" by (auto simp: in_set_conv_nth)
      with at l have "originalOrderMap n is ! i = Some j" by auto
      with i have "j = v" by simp
      with j show "i = is ! v" by simp
    qed
  qed
qed

lemma lv_encode_Inr:
  assumes "lv_encode rt code key = Inr r"
  obtains encryptedFragments decoderKey where
    "code \<noteq> []" "key \<noteq> []"
    "map_throwing (encrypt_fragment key)
       (shuffledFragments (fragments_from code key 0) (shuffledIndices rt code key))
     = Inr encryptedFragments"
    "btoa key = Inr decoderKey"
    "result r = wrapper (stringify_strings encryptedFragments)
                  (stringify_indices
                     (originalOrderMap (length (fragments_from code key 0))
                        (shuffledIndices rt code key)))
                  decoderKey"
  using assms
  by (auto simp: lv_encode_def Let_def trim_wrapper split: if_splits sum.splits)

text \<open>
  C6. When the engine's sort returns a permutation of the array it is given (as every
  engine does), the map that \<open>lanaVortex.encode\<close> embeds in the artifact is a
  bijection on the fragment positions: it has one entry for each fragment, every
  position is the entry of exactly one index, and the entry at an original index is the
  position the fragment has after the shuffle.
\<close>

theorem lv_order_map_bijection:
  assumes "\<forall>cmp xs s. mset (array_sort rt cmp xs s) = mset xs"
    and "lv_encode rt code key = Inr r"
  shows "(\<exists>payload decoderKey.
            result r = wrapper payload
              (stringify_indices
                 (originalOrderMap (length (fragments_from code key 0)) (shuffledIndices rt code key)))
              decoderKey)
         \<and> length (originalOrderMap (length (fragments_from code key 0)) (shuffledIndices rt code key))
             = length (fragments_from code key 0)
         \<and> (\<forall>v<length (fragments_from code key 0).
               \<exists>!i. i < length (fragments_from code key 0)
                    \<and> originalOrderMap (length (fragments_from code key 0))
                         (shuffledIndices rt code key) ! i = Some v)
         \<and> (\<forall>j<length (fragments_from code key 0).
               originalOrderMap (length (fragments_from code key 0)) (shuffledIndices rt code key)
                 ! (shuffledIndices rt code key ! j) = Some j)"
proof -
  let ?n = "length (fragments_from code key 0)"
  let ?is = "shuffledIndices rt code key"
  from assms(1) have p: "mset ?is = mset [0..<?n]"
    by (simp add: shuffledIndices_def)
  from assms(2) have "\<exists>payload decoderKey.
      result r = wrapper payload (stringify_indices (originalOrderMap ?n ?is)) decoderKey"
    by (rule lv_encode_Inr) blast
  with originalOrderMap_permutation [OF p] show ?thesis by blast
qed

text \<open>The sample engine returns a permutation.\<close>

lemma mset_insert_by: "mset (fst (insert_by cmp x ys s)) = add_mset x (mset ys)"
proof (induction ys arbitrary: s)
  case Nil
  then show ?case by simp
next
  case (Cons y ys)
  obtain r s' where c: "cmp x y s = (r, s')" by (cases "cmp x y s")
  obtain zs s'' where i: "insert_by cmp x ys s' = (zs, s'')" by (cases "insert_by cmp x ys s'")
  from Cons [of s'] i have "mset zs = add_mset x (mset ys)" by simp
  with c i show ?case by simp
qed

lemma mset_insertion_sort: "mset (fst (insertion_sort cmp xs s)) = mset xs"
proof (induction xs arbitrary: s)
  case Nil
  then show ?case by simp
next
  case (Cons x xs)
  obtain ys s' where r: "insertion_sort cmp xs s = (ys, s')" by (cases "insertion_sort cmp xs s")
  with Cons [of s] have "mset ys = mset xs" by simp
  with r mset_insert_by [of cmp x ys s'] show ?case by simp
qed

lemma sample_runtime_sort_permutes:
  "\<forall>cmp xs s. mset (array_sort sample_runtime cmp xs s) = mset xs"
  by (simp add: sample_runtime_def mset_insertion_sort)

lemma lv_encode_InrI:
  assumes "code \<noteq> []" "key \<noteq> []"
    and "map_throwing (encrypt_fragment key)
           (shuffledFragments (fragments_from code key 0) (shuffledIndices rt code key))
         = Inr encryptedFragments"
    and "btoa key = Inr decoderKey"
  shows "lv_encode rt code key =
         Inr \<lparr> result = wrapper (stringify_strings encryptedFragments)
                       (stringify_indices
                          (originalOrderMap (length (fragments_from code key 0))
                             (shuffledIndices rt code key)))
                       decoderKey,
               map_log = lv_log_encode \<rparr>"
  using assms by (simp add: lv_encode_def Let_def trim_wrapper)

lemma sample_fragments:
  "fragments_from (str ''abcdefghi'') (str ''ab'') 0
     = [str ''ab'', str ''cd'', str ''ef'', str ''gh'', str ''i'']
   \<and> shuffledIndices sample_runtime (str ''abcdefghi'') (str ''ab'') = [2, 1, 0, 3, 4]"
  by code_simp

lemma sample_encrypted:
  "map_throwing (encrypt_fragment (str ''ab''))
     (shuffledFragments [str ''ab'', str ''cd'', str ''ef'', str ''gh'', str ''i''] [2, 1, 0, 3, 4])
   = Inr [str ''BAQ='', str ''AgY='', str ''AAA='', str ''Bgo='', str ''CA=='']
   \<and> btoa (str ''ab'') = Inr (str ''YWI='')"
  by code_simp

theorem lv_order_map_bijection_witness:
  "(\<forall>cmp xs s. mset (array_sort sample_runtime cmp xs s) = mset xs)
   \<and> (\<exists>r. lv_encode sample_runtime (str ''abcdefghi'') (str ''ab'') = Inr r)
   \<and> shuffledIndices sample_runtime (str ''abcdefghi'') (str ''ab'') = [2, 1, 0, 3, 4]
   \<and> length (originalOrderMap (length (fragments_from (str ''abcdefghi'') (str ''ab'') 0))
               (shuffledIndices sample_runtime (str ''abcdefghi'') (str ''ab''))) = 5
   \<and> originalOrderMap (length (fragments_from (str ''abcdefghi'') (str ''ab'') 0))
         (shuffledIndices sample_runtime (str ''abcdefghi'') (str ''ab'')) ! 2 = Some 0"
proof -
  let ?C = "str ''abcdefghi''" and ?K = "str ''ab''"
  have ne: "?C \<noteq> []" "?K \<noteq> []" by (simp_all add: str_def)
  from sample_fragments sample_encrypted
  have "\<exists>r. lv_encode sample_runtime ?C ?K = Inr r"
    using lv_encode_InrI [OF ne, of sample_runtime] by simp
  then obtain r where r: "lv_encode sample_runtime ?C ?K = Inr r" ..
  have n: "length (fragments_from ?C ?K 0) = 5" using sample_fragments by simp
  note T = lv_order_map_bijection [OF sample_runtime_sort_permutes r]
  from T have len: "length (originalOrderMap (length (fragments_from ?C ?K 0))
               (shuffledIndices sample_runtime ?C ?K)) = length (fragments_from ?C ?K 0)"
    by blast
  from T n have "originalOrderMap (length (fragments_from ?C ?K 0))
         (shuffledIndices sample_runtime ?C ?K) ! (shuffledIndices sample_runtime ?C ?K ! 0) = Some 0"
    by simp
  with sample_fragments have at: "originalOrderMap (length (fragments_from ?C ?K 0))
         (shuffledIndices sample_runtime ?C ?K) ! 2 = Some 0" by simp
  from len n have len5: "length (originalOrderMap (length (fragments_from ?C ?K 0))
               (shuffledIndices sample_runtime ?C ?K)) = 5"
    by (simp only:)
  have sh: "shuffledIndices sample_runtime ?C ?K = [2, 1, 0, 3, 4]"
    using sample_fragments by (rule conjunct2)
  have ex: "\<exists>r. lv_encode sample_runtime ?C ?K = Inr r" using r by (rule exI)
  from sample_runtime_sort_permutes ex sh len5 at show ?thesis by (intro conjI)
qed

section \<open>lana-vortex: decode on the artifacts of encode\<close>

text \<open>The units of a base64 text: the 64 characters of the alphabet and the padding.\<close>

definition b64_unit :: "16 word \<Rightarrow> bool" where
  "b64_unit c \<longleftrightarrow> b64_value c \<noteq> None \<or> c = 0x3D"

lemma b64_value_char: "\<forall>n<64. b64_value (b64_char n) = Some n"
  by code_simp

lemma b64_unit_char: "n < 64 \<Longrightarrow> b64_unit (b64_char n)"
  using b64_value_char by (simp add: b64_unit_def)

lemma b64_unit_pad: "b64_unit 0x3D"
  by (simp add: b64_unit_def)

lemma b64_unit_facts:
  assumes "b64_unit c"
  shows "c \<noteq> 0x20" "c \<noteq> 0x22" "c \<noteq> 0x5C" "\<not> c < 0x20" "\<not> high_surrogate c" "\<not> low_surrogate c"
    "c \<noteq> 0x5D" "\<not> line_terminator c" "c \<noteq> 0x08" "c \<noteq> 0x09" "c \<noteq> 0x0A" "c \<noteq> 0x0C" "c \<noteq> 0x0D"
  using assms
  by (auto simp: b64_unit_def b64_value_def high_surrogate_def low_surrogate_def line_terminator_def
      word_le_nat_alt word_less_nat_alt split: if_splits)

lemma b64_encode_units: "list_all (\<lambda>b. b < 256) bs \<Longrightarrow> list_all b64_unit (b64_encode bs)"
proof (induction bs rule: b64_encode.induct)
  case (1 a b c rest)
  then have "a div 4 < 64" "(a mod 4) * 16 + b div 16 < 64" "(b mod 16) * 4 + c div 64 < 64"
    "c mod 64 < 64" by simp_all arith+
  with 1 show ?case by (simp add: b64_unit_char)
next
  case (2 a b)
  then have "a div 4 < 64" "(a mod 4) * 16 + b div 16 < 64" "(b mod 16) * 4 < 64"
    by simp_all arith+
  then show ?case by (simp add: b64_unit_char b64_unit_pad)
next
  case (3 a)
  then have "a div 4 < 64" "(a mod 4) * 16 < 64" by simp_all
  then show ?case by (simp add: b64_unit_char b64_unit_pad)
next
  case 4
  then show ?case by simp
qed

lemma btoa_units: "btoa s = Inr t \<Longrightarrow> list_all b64_unit t"
proof -
  assume a: "btoa s = Inr t"
  then have le: "list_all (\<lambda>c. c \<le> 0xFF) s" and t: "t = b64_encode (map unat s)"
    by (auto simp: btoa_def split: if_splits)
  from le have "list_all (\<lambda>b. b < 256) (map unat s)"
    by (fastforce simp: list_all_iff word_le_nat_alt)
  with t show ?thesis by (simp add: b64_encode_units)
qed

lemma quote_unit_plain: "b64_unit c \<Longrightarrow> quote_unit c = [c]"
  using b64_unit_facts [of c] by (simp add: quote_unit_def)

lemma quote_units_plain: "list_all b64_unit s \<Longrightarrow> quote_units s = s"
  by (induction s rule: quote_units.induct) (simp_all add: quote_unit_plain b64_unit_facts)

lemma map_throwing_Inr:
  "map_throwing f xs = Inr ys \<Longrightarrow> list_all2 (\<lambda>x y. f x = Inr y) xs ys"
  by (induction xs arbitrary: ys) (auto split: sum.splits)

lemma encrypted_units:
  assumes "map_throwing (encrypt_fragment key) frs = Inr enc"
  shows "\<forall>e \<in> set enc. list_all b64_unit e"
proof
  fix e assume "e \<in> set enc"
  with map_throwing_Inr [OF assms] obtain f where "encrypt_fragment key f = Inr e"
    by (auto simp: list_all2_conv_all_nth in_set_conv_nth)
  then show "list_all b64_unit e"
    by (auto simp: encrypt_fragment_def split: option.splits dest: btoa_units)
qed

lemma set_join: "set (join sep xs) \<subseteq> set sep \<union> \<Union> (set ` set xs)"
  by (induction sep xs rule: join.induct) auto

lemma stringify_strings_no_space:
  assumes "\<forall>e \<in> set enc. list_all b64_unit e"
  shows "0x20 \<notin> set (stringify_strings enc)"
proof -
  have "\<And>e. e \<in> set enc \<Longrightarrow> 0x20 \<notin> set (json_string e)"
  proof -
    fix e assume "e \<in> set enc"
    with assms have u: "list_all b64_unit e" by blast
    then have "0x20 \<notin> set e" using b64_unit_facts(1) by (auto simp: list_all_iff)
    with u show "0x20 \<notin> set (json_string e)" by (simp add: json_string_def quote_units_plain)
  qed
  then have "0x20 \<notin> \<Union> (set ` set (map json_string enc))" by auto
  with set_join [of "[0x2C]" "map json_string enc"]
  have "0x20 \<notin> set (join [0x2C] (map json_string enc))" by auto
  then show ?thesis by (simp add: stringify_strings_def)
qed

lemma digit_unit: "d < 10 \<Longrightarrow> is_digit (of_nat (48 + d))"
proof -
  assume "d < 10"
  then have "unat (of_nat (48 + d) :: 16 word) = 48 + d"
    by (simp only: unat_of_nat) simp
  with \<open>d < 10\<close> show ?thesis
    by (simp add: is_digit_def word_le_nat_alt del: of_nat_add of_nat_numeral)
qed

lemma show_nat_digits: "list_all is_digit (show_nat n)"
proof (induction n rule: show_nat.induct)
  case (1 n)
  show ?case
  proof (cases "n < 10")
    case True
    then show ?thesis by (subst show_nat.simps) (simp add: digit_unit del: of_nat_add of_nat_numeral)
  next
    case False
    with 1 show ?thesis by (subst show_nat.simps) (simp add: digit_unit del: of_nat_add of_nat_numeral)
  qed
qed

lemma stringify_indices_no_space: "0x20 \<notin> set (stringify_indices m)"
proof -
  have "\<And>x. 0x20 \<notin> set (case x of None \<Rightarrow> str ''null'' | Some n \<Rightarrow> show_nat n)"
  proof -
    fix x :: "nat option"
    show "0x20 \<notin> set (case x of None \<Rightarrow> str ''null'' | Some n \<Rightarrow> show_nat n)"
    proof (cases x)
      case None
      then show ?thesis by (simp add: str_def cu_def)
    next
      case (Some n)
      have "\<not> is_digit 0x20" by (simp add: is_digit_def)
      with show_nat_digits [of n] Some show ?thesis by (auto simp: list_all_iff)
    qed
  qed
  then have "0x20 \<notin> \<Union> (set ` set (map (\<lambda>x. case x of None \<Rightarrow> str ''null'' | Some n \<Rightarrow> show_nat n) m))"
    by auto
  with set_join [of "[0x2C]" "map (\<lambda>x. case x of None \<Rightarrow> str ''null'' | Some n \<Rightarrow> show_nat n) m"]
  have "0x20 \<notin> set (join [0x2C] (map (\<lambda>x. case x of None \<Rightarrow> str ''null'' | Some n \<Rightarrow> show_nat n) m))"
    by auto
  then show ?thesis by (simp add: stringify_indices_def)
qed


text \<open>\<open>adjacent a b s\<close>: somewhere in \<open>s\<close> the unit \<open>a\<close> is followed by \<open>b\<close>.\<close>

fun adjacent :: "'a \<Rightarrow> 'a \<Rightarrow> 'a list \<Rightarrow> bool" where
  "adjacent a b (x # y # zs) = ((x = a \<and> y = b) \<or> adjacent a b (y # zs))"
| "adjacent a b [x] = False"
| "adjacent a b [] = False"

lemma adjacent_nth: "Suc i < length s \<Longrightarrow> s ! i = a \<Longrightarrow> s ! Suc i = b \<Longrightarrow> adjacent a b s"
proof (induction a b s arbitrary: i rule: adjacent.induct)
  case (1 a b x y zs)
  show ?case
  proof (cases i)
    case 0
    with 1(3,4) show ?thesis by simp
  next
    case (Suc j)
    with 1(2,3,4) have "Suc j < length (y # zs)" "(y # zs) ! j = a" "(y # zs) ! Suc j = b"
      by simp_all
    then have "adjacent a b (y # zs)" by (rule 1(1))
    then show ?thesis by simp
  qed
qed simp_all

lemma adjacent_Cons_ne: "a \<noteq> x \<Longrightarrow> adjacent a b (x # xs) = adjacent a b xs"
  by (cases xs) auto

lemma adjacent_append_without: "a \<notin> set xs \<Longrightarrow> adjacent a b (xs @ ys) = adjacent a b ys"
  by (induction xs) (simp_all add: adjacent_Cons_ne)

lemma regex_search_NoneI:
  "(\<And>i. i \<le> length s \<Longrightarrow> m (drop i s) = None) \<Longrightarrow> regex_search m s = None"
proof (induction s)
  case Nil
  from Nil [of 0] show ?case by simp
next
  case (Cons c cs)
  from Cons.prems [of 0] have h: "m (c # cs) = None" by simp
  have "regex_search m cs = None"
  proof (rule Cons.IH)
    fix i assume "i \<le> length cs"
    with Cons.prems [of "Suc i"] show "m (drop i cs) = None" by simp
  qed
  with h show ?case by simp
qed

lemma no_prefix_without_adjacent:
  assumes "\<not> adjacent (p ! k) (p ! Suc k) s" and "Suc k < length p"
  shows "\<not> prefix p (drop i s)"
proof
  assume "prefix p (drop i s)"
  then obtain r where r: "drop i s = p @ r" by (auto simp: prefix_def)
  then have len: "length p \<le> length s - i" by (metis length_append length_drop le_add1)
  with assms(2) have b: "Suc (i + k) < length s" by arith
  from r assms(2) have "drop i s ! k = p ! k" "drop i s ! Suc k = p ! Suc k"
    by (simp_all add: nth_append)
  with b have "s ! (i + k) = p ! k" "s ! Suc (i + k) = p ! Suc k" by simp_all
  with b have "adjacent (p ! k) (p ! Suc k) s" by (intro adjacent_nth) simp_all
  with assms(1) show False by simp
qed

lemma wrapper_without_space_m:
  assumes "0x20 \<notin> set payload" "0x20 \<notin> set orderMap" "0x20 \<notin> set decoderKey"
  shows "\<not> adjacent 0x20 0x6D (wrapper payload orderMap decoderKey)"
  using assms
  by (simp add: wrapper_def str_def cu_def adjacent_Cons_ne adjacent_append_without)

lemma search_var_m_wrapper:
  assumes "0x20 \<notin> set payload" "0x20 \<notin> set orderMap" "0x20 \<notin> set decoderKey"
  shows "regex_search (match_var_array (str ''var m='')) (wrapper payload orderMap decoderKey) = None"
proof (rule regex_search_NoneI)
  fix i
  let ?p = "str ''var m='' @ [0x5B]"
  have k: "?p ! 3 = 0x20" "?p ! Suc 3 = 0x6D" "Suc 3 < length ?p"
    by (simp_all add: str_def cu_def)
  from wrapper_without_space_m [OF assms] k
  have "\<not> adjacent (?p ! 3) (?p ! Suc 3) (wrapper payload orderMap decoderKey)" by simp
  from no_prefix_without_adjacent [OF this k(3)]
  have "\<not> prefix ?p (drop i (wrapper payload orderMap decoderKey))" .
  then show "match_var_array (str ''var m='') (drop i (wrapper payload orderMap decoderKey)) = None"
    by (simp add: match_var_array_def)
qed


lemma wrapper_not_empty: "wrapper payload orderMap decoderKey \<noteq> []"
  by (simp add: wrapper_def str_def)

text \<open>
  C1. Claim: \<open>decode(encode(T, K).result, K).result = T\<close> for non-empty \<open>T\<close> and
  \<open>K\<close>. \<open>decode\<close> looks for the permutation map with the pattern
  \<open>/var m=(\[.*?\])/\<close>, but the wrapper that \<open>encode\<close> writes declares the map in
  the same \<open>var\<close> statement as the payload, as \<open>,m=[...]\<close>. The only spaces of a
  wrapper are those of its fixed text, none followed by \<open>m\<close>, so the pattern matches
  nowhere: whenever \<open>encode\<close> returns an artifact, \<open>decode\<close> of it with the same
  key throws the format error, re-thrown by its \<open>catch\<close>, and returns no text.
\<close>

theorem lv_decode_rejects_encoded:
  assumes "lv_encode rt code key = Inr r"
  shows "lv_decode (result r) key = Inl (DecodingFailed InvalidFormat)"
proof -
  from assms obtain enc dk where key: "key \<noteq> []"
    and enc: "map_throwing (encrypt_fragment key)
                (shuffledFragments (fragments_from code key 0) (shuffledIndices rt code key))
              = Inr enc"
    and dk: "btoa key = Inr dk"
    and res: "result r = wrapper (stringify_strings enc)
                 (stringify_indices
                    (originalOrderMap (length (fragments_from code key 0))
                       (shuffledIndices rt code key))) dk"
    by (rule lv_encode_Inr)
  from btoa_units [OF dk] have "0x20 \<notin> set dk"
    using b64_unit_facts(1) by (auto simp: list_all_iff)
  with stringify_strings_no_space [OF encrypted_units [OF enc]] stringify_indices_no_space
  have none: "regex_search (match_var_array (str ''var m='')) (result r) = None"
    unfolding res by (intro search_var_m_wrapper)
  have "lv_decode_body (result r) key = Inl InvalidFormat"
    by (cases "regex_search (match_var_array (str ''var p='')) (result r)")
       (simp_all add: lv_decode_body_def none)
  with key res show ?thesis by (simp add: lv_decode_def wrapper_not_empty)
qed

text \<open>The run of scenario A of the specification, \<open>encode("console.log(1)", "ab")\<close>,
  on the sample engine.\<close>

lemma scenario_fragments:
  "fragments_from (str ''console.log(1)'') (str ''ab'') 0
     = [str ''co'', str ''ns'', str ''ol'', str ''e.'', str ''lo'', str ''g('', str ''1)'']
   \<and> shuffledIndices sample_runtime (str ''console.log(1)'') (str ''ab'') = [4, 0, 1, 3, 2, 5, 6]"
  by code_simp

lemma scenario_encrypted:
  "map_throwing (encrypt_fragment (str ''ab''))
     (shuffledFragments
        [str ''co'', str ''ns'', str ''ol'', str ''e.'', str ''lo'', str ''g('', str ''1)'']
        [4, 0, 1, 3, 2, 5, 6])
   = Inr [str ''DQ0='', str ''Ag0='', str ''DxE='', str ''BEw='', str ''Dg4='', str ''Bko='', str ''UEs='']
   \<and> btoa (str ''ab'') = Inr (str ''YWI='')"
  by code_simp

theorem lv_decode_rejects_encoded_witness:
  "\<exists>r. lv_encode sample_runtime (str ''console.log(1)'') (str ''ab'') = Inr r
       \<and> lv_decode (result r) (str ''ab'') = Inl (DecodingFailed InvalidFormat)"
proof -
  let ?C = "str ''console.log(1)''" and ?K = "str ''ab''"
  have ne: "?C \<noteq> []" "?K \<noteq> []" by (simp_all add: str_def)
  from scenario_fragments scenario_encrypted
  have "\<exists>r. lv_encode sample_runtime ?C ?K = Inr r"
    using lv_encode_InrI [OF ne, of sample_runtime] by simp
  then obtain r where r: "lv_encode sample_runtime ?C ?K = Inr r" ..
  from r lv_decode_rejects_encoded [OF r] show ?thesis by blast
qed

section \<open>The guards of the two keyed encoders\<close>

text \<open>
  C4. Claim: both \<open>lanaVortex.encode\<close> and \<open>stringConceal.encode\<close> fail when the code or
  the key is empty. \<open>stringConceal.encode\<close> guards the key only: with an empty code and
  the key \<open>k\<close> it finds no string and returns the code as it is.
\<close>

theorem sc_encode_empty_code_counterexample:
  "sc_encode sample_runtime [] (str ''k'') = Inr \<lparr> result = [], map_log = sc_log_none \<rparr>"
  by (simp add: sc_encode_def str_def)

text \<open>
  C4, amended. \<open>lanaVortex.encode\<close> fails with the error of its guard when the code or
  the key is empty; \<open>stringConceal.encode\<close> fails with the error of its guard when the key
  is empty, and with an empty code and a key it returns the empty code and the log
  \<open>No strings found to conceal.\<close>
\<close>

theorem encode_guards:
  "(code = [] \<or> key = [] \<longrightarrow> lv_encode rt code key = Inl CodeAndKeyEmpty)
   \<and> (key = [] \<longrightarrow> sc_encode rt code key = Inl KeyRequiredToConceal)
   \<and> (key \<noteq> [] \<longrightarrow> sc_encode rt [] key = Inr \<lparr> result = [], map_log = sc_log_none \<rparr>)"
  by (auto simp: lv_encode_def sc_encode_def)

theorem encode_guards_witness:
  "lv_encode sample_runtime [] (str ''k'') = Inl CodeAndKeyEmpty
   \<and> lv_encode sample_runtime (str ''x'') [] = Inl CodeAndKeyEmpty
   \<and> sc_encode sample_runtime (str ''x'') [] = Inl KeyRequiredToConceal
   \<and> sc_encode sample_runtime [] (str ''k'') = Inr \<lparr> result = [], map_log = sc_log_none \<rparr>"
  using encode_guards [of "[]" "str ''k''" sample_runtime]
        encode_guards [of "str ''x''" "[]" sample_runtime]
  by (simp add: str_def)

section \<open>string-conceal: decode with another key\<close>

lemma regex_search_hit: "m s = Some r \<Longrightarrow> regex_search m s = Some r"
  by (cases s) simp_all

lemma regex_search_skip:
  "(\<And>i. i < length xs \<Longrightarrow> m (drop i (xs @ ys)) = None)
   \<Longrightarrow> regex_search m (xs @ ys) = regex_search m ys"
proof (induction xs)
  case Nil
  then show ?case by simp
next
  case (Cons x xs)
  from Cons.prems [of 0] have h: "m (x # xs @ ys) = None" by simp
  have "regex_search m (xs @ ys) = regex_search m ys"
  proof (rule Cons.IH)
    fix i assume "i < length xs"
    with Cons.prems [of "Suc i"] show "m (drop i (xs @ ys)) = None" by simp
  qed
  with h show ?case by simp
qed

lemma prefix_drop_nth:
  assumes "prefix p (drop i s)" and "j < length p"
  shows "i + j < length s \<and> s ! (i + j) = p ! j"
proof -
  from assms(1) obtain r where r: "drop i s = p @ r" by (auto simp: prefix_def)
  then have "length p \<le> length s - i" by (metis length_append length_drop le_add1)
  with assms(2) have b: "i + j < length s" by arith
  from r assms(2) have "drop i s ! j = p ! j" by (simp add: nth_append)
  with b show ?thesis by simp
qed

lemma no_prefix_before:
  assumes "\<not> adjacent (p ! k) (p ! Suc k) (xs @ take (Suc k) ys)"
    and "Suc k < length p" and "i < length xs"
  shows "\<not> prefix p (drop i (xs @ ys))"
proof
  assume pre: "prefix p (drop i (xs @ ys))"
  from assms(2) have k: "k < length p" by simp
  from prefix_drop_nth [OF pre k] prefix_drop_nth [OF pre assms(2)]
  have n: "i + k < length (xs @ ys)" "(xs @ ys) ! (i + k) = p ! k"
    "i + Suc k < length (xs @ ys)" "(xs @ ys) ! (i + Suc k) = p ! Suc k" by blast+
  let ?s = "xs @ take (Suc k) ys"
  from n(3) assms(3) have b': "Suc (i + k) < length ?s" by auto
  have same: "\<And>j. j < length ?s \<Longrightarrow> ?s ! j = (xs @ ys) ! j"
    by (auto simp: nth_append)
  from b' have "i + k < length ?s" by simp
  with same [of "i + k"] same [of "Suc (i + k)"] b' n
  have "?s ! (i + k) = p ! k" "?s ! Suc (i + k) = p ! Suc k" by simp_all
  with b' have "adjacent (p ! k) (p ! Suc k) ?s" by (intro adjacent_nth) simp_all
  with assms(1) show False by simp
qed

lemma lazy_dots_until_found:
  assumes "e \<noteq> []" and "hd e \<notin> set m" and "\<forall>c \<in> set m. \<not> line_terminator c"
  shows "lazy_dots_until e (m @ e @ rest) = Some (m, rest)"
  using assms(2,3)
proof (induction m)
  case Nil
  from assms(1) obtain a as where "e = a # as" by (cases e) auto
  then show ?case by simp
next
  case (Cons c m)
  from assms(1) obtain a as where e: "e = a # as" by (cases e) auto
  with Cons.prems have "c \<noteq> a" by auto
  with e have "\<not> prefix e ((c # m) @ e @ rest)" by simp
  with Cons show ?case by simp
qed

lemma takeWhile_run: "list_all P xs \<Longrightarrow> \<not> P y \<Longrightarrow> takeWhile P (xs @ y # ys) = xs"
  by (induction xs) simp_all

lemma dropWhile_run: "list_all P xs \<Longrightarrow> \<not> P y \<Longrightarrow> dropWhile P (xs @ y # ys) = y # ys"
  by (induction xs) simp_all

lemma match_array_at:
  assumes "name \<noteq> []" and "list_all alnum name" and "0x5D \<notin> set inner"
    and "\<forall>c \<in> set inner. \<not> line_terminator c"
  shows "match_array (str ''var _S'' @ name @ [0x3D, 0x5B] @ inner @ [0x5D, 0x3B] @ rest)
         = Some ([0x5B] @ inner @ [0x5D])"
proof -
  let ?s = "str ''var _S'' @ name @ [0x3D, 0x5B] @ inner @ [0x5D, 0x3B] @ rest"
  have p: "prefix (str ''var _S'') ?s" by (simp add: str_def)
  have d: "drop 6 ?s = name @ 0x3D # ([0x5B] @ inner @ [0x5D, 0x3B] @ rest)"
    by (simp add: str_def)
  have na: "\<not> alnum 0x3D" by (simp add: alnum_def)
  have t: "takeWhile alnum (drop 6 ?s) = name"
    unfolding d using assms(2) na by (rule takeWhile_run)
  have r: "dropWhile alnum (drop 6 ?s) = 0x3D # ([0x5B] @ inner @ [0x5D, 0x3B] @ rest)"
    unfolding d using assms(2) na by (rule dropWhile_run)
  have l: "lazy_dots_until (str ''];'') (inner @ str ''];'' @ rest) = Some (inner, rest)"
    using assms(3,4) by (intro lazy_dots_until_found) (simp_all add: str_def cu_def)
  have l': "lazy_dots_until (str ''];'') (inner @ 0x5D # 0x3B # rest) = Some (inner, rest)"
    using l by (simp add: str_def cu_def)
  show ?thesis
    unfolding match_array_def Let_def t r using p assms(1) l'
    by (simp add: str_def cu_def)
qed

lemma match_key_at:
  assumes "k \<noteq> []" and "list_all (\<lambda>c. alnum c \<or> c = 0x3D) k"
  shows "match_key (str ''var k='' @ [0x22] @ k @ [0x22, 0x3B] @ rest) = Some k"
proof -
  let ?s = "str ''var k='' @ [0x22] @ k @ [0x22, 0x3B] @ rest"
  have p: "prefix (str ''var k='' @ [0x22]) ?s" by (simp add: str_def)
  have d: "drop 7 ?s = k @ 0x22 # ([0x3B] @ rest)" by (simp add: str_def)
  have na: "\<not> (alnum 0x22 \<or> (0x22 :: 16 word) = 0x3D)" by (simp add: alnum_def)
  have t: "takeWhile (\<lambda>c. alnum c \<or> c = 0x3D) (drop 7 ?s) = k"
    unfolding d using assms(2) na by (rule takeWhile_run)
  have r: "dropWhile (\<lambda>c. alnum c \<or> c = 0x3D) (drop 7 ?s) = 0x22 # ([0x3B] @ rest)"
    unfolding d using assms(2) na by (rule dropWhile_run)
  show ?thesis
    unfolding match_key_def Let_def t r using p assms(1) by simp
qed


lemma parse_string_body_plain:
  "list_all b64_unit s \<Longrightarrow> parse_string_body (s @ 0x22 # rest) = Some (s, rest)"
proof (induction s)
  case Nil
  then show ?case by simp
next
  case (Cons c s)
  then have c: "b64_unit c" and s: "list_all b64_unit s" by simp_all
  from b64_unit_facts [OF c] Cons.IH [OF s] show ?case by simp
qed

lemma skip_ws_not_ws: "\<not> json_whitespace c \<Longrightarrow> skip_ws (c # cs) = c # cs"
  by (simp add: skip_ws_def)

lemma json_whitespace_simps:
  "\<not> json_whitespace 0x22" "\<not> json_whitespace 0x2C" "\<not> json_whitespace 0x5D"
  "\<not> json_whitespace 0x5B"
  by (simp_all add: json_whitespace_def)

lemma parse_scalar_string:
  "list_all b64_unit s \<Longrightarrow> parse_scalar (0x22 # s @ 0x22 # rest) = Some (JString s, rest)"
  by (simp add: parse_scalar_def parse_string_body_plain)

lemma parse_elements_strings:
  assumes "enc \<noteq> []" and "\<forall>e \<in> set enc. list_all b64_unit e"
  shows "parse_elements (join [0x2C] (map json_string enc) @ [0x5D]) = Some (map JString enc)"
  using assms
proof (induction enc rule: list_nonempty_induct)
  case (single e)
  then have e: "list_all b64_unit e" by simp
  have "join [0x2C] (map json_string [e]) @ [0x5D] = 0x22 # e @ 0x22 # [0x5D]"
    using e by (simp add: json_string_def quote_units_plain)
  then show ?case
    by (subst parse_elements.simps)
       (simp add: skip_ws_not_ws json_whitespace_simps parse_scalar_string [OF e] skip_ws_def)
next
  case (cons e es)
  then have e: "list_all b64_unit e" and es: "\<forall>e \<in> set es. list_all b64_unit e" by simp_all
  from cons(1) obtain e' es' where es': "es = e' # es'" by (cases es) auto
  let ?R = "join [0x2C] (map json_string es) @ [0x5D]"
  have "join [0x2C] (map json_string (e # es)) @ [0x5D] = 0x22 # e @ 0x22 # 0x2C # ?R"
    using e es' by (simp add: json_string_def quote_units_plain)
  moreover have "parse_elements ?R = Some (map JString es)" using cons(2) es by blast
  ultimately show ?case
    by (subst parse_elements.simps)
       (simp add: skip_ws_not_ws json_whitespace_simps parse_scalar_string [OF e])
qed

lemma parse_array_strings:
  assumes "\<forall>e \<in> set enc. list_all b64_unit e"
  shows "parse_array (stringify_strings enc) = Some (map JString enc)"
proof (cases "enc = []")
  case True
  then show ?thesis
    by (simp add: parse_array_def stringify_strings_def skip_ws_not_ws json_whitespace_simps
          skip_ws_def)
next
  case False
  then obtain e es where enc: "enc = e # es" by (cases enc) auto
  with assms have e: "list_all b64_unit e" by simp
  have hd: "join [0x2C] (map json_string enc) @ [0x5D]
            = 0x22 # tl (join [0x2C] (map json_string enc) @ [0x5D])"
    using enc by (cases es) (simp_all add: json_string_def)
  have "parse_array (stringify_strings enc)
        = parse_elements (join [0x2C] (map json_string enc) @ [0x5D])"
    unfolding stringify_strings_def parse_array_def
    by (subst (2) hd, subst (1) hd) (simp add: skip_ws_not_ws json_whitespace_simps)
  with parse_elements_strings [OF False assms] show ?thesis by simp
qed


lemma sc_encode_Inr:
  assumes "sc_encode rt code key = Inr r" and "fst (extract_strings code 0) \<noteq> []"
  obtains encryptedStrings encodedKey where
    "key \<noteq> []"
    "map_throwing (\<lambda>s. btoa (xorCipher s key)) (fst (extract_strings code 0)) = Inr encryptedStrings"
    "btoa key = Inr encodedKey"
    "result r = decoderLogic (str ''_S'' @ random_suffix rt 0) (str ''_D'' @ random_suffix rt 1)
                  encryptedStrings encodedKey
                @ replace_placeholders (str ''_D'' @ random_suffix rt 1)
                    (snd (extract_strings code 0))"
  using assms
  by (auto simp: sc_encode_def Let_def split: if_splits sum.splits prod.splits)

lemma sc_encode_InrI:
  assumes "key \<noteq> []" and "extract_strings code 0 = (strings, codeWithoutStrings)"
    and "strings \<noteq> []"
    and "map_throwing (\<lambda>s. btoa (xorCipher s key)) strings = Inr encryptedStrings"
    and "btoa key = Inr encodedKey"
  shows "sc_encode rt code key =
         Inr \<lparr> result = decoderLogic (str ''_S'' @ random_suffix rt 0)
                          (str ''_D'' @ random_suffix rt 1) encryptedStrings encodedKey
                        @ replace_placeholders (str ''_D'' @ random_suffix rt 1) codeWithoutStrings,
               map_log = sc_log_encode (length strings) \<rparr>"
  using assms by (simp add: sc_encode_def Let_def)

lemma encrypted_strings_units:
  assumes "map_throwing (\<lambda>s. btoa (xorCipher s key)) strings = Inr enc"
  shows "\<forall>e \<in> set enc. list_all b64_unit e"
proof
  fix e assume "e \<in> set enc"
  with map_throwing_Inr [OF assms] obtain s where "btoa (xorCipher s key) = Inr e"
    by (auto simp: list_all2_conv_all_nth in_set_conv_nth)
  then show "list_all b64_unit e" by (rule btoa_units)
qed

lemma b64_encode_not_empty: "bs \<noteq> [] \<Longrightarrow> b64_encode bs \<noteq> []"
  by (cases bs rule: b64_encode.cases) simp_all

lemma btoa_not_empty: "btoa s = Inr t \<Longrightarrow> s \<noteq> [] \<Longrightarrow> t \<noteq> []"
  by (auto simp: btoa_def b64_encode_not_empty split: if_splits)

lemma alnum_not_space: "list_all alnum s \<Longrightarrow> 0x20 \<notin> set s"
  by (auto simp: list_all_iff alnum_def)

lemma stringify_strings_inner:
  assumes "\<forall>e \<in> set enc. list_all b64_unit e"
  shows "0x5D \<notin> set (join [0x2C] (map json_string enc))"
    and "\<forall>c \<in> set (join [0x2C] (map json_string enc)). \<not> line_terminator c"
proof -
  have js: "\<And>e c. e \<in> set enc \<Longrightarrow> c \<in> set (json_string e) \<Longrightarrow> c \<noteq> 0x5D \<and> \<not> line_terminator c"
  proof -
    fix e c assume "e \<in> set enc" and c: "c \<in> set (json_string e)"
    with assms have u: "list_all b64_unit e" by blast
    with c have "c = 0x22 \<or> b64_unit c"
      by (auto simp: json_string_def quote_units_plain list_all_iff)
    then show "c \<noteq> 0x5D \<and> \<not> line_terminator c"
      using b64_unit_facts(7,8) [of c] by (auto simp: line_terminator_def)
  qed
  have all: "\<And>c. c \<in> set (join [0x2C] (map json_string enc)) \<Longrightarrow> c \<noteq> 0x5D \<and> \<not> line_terminator c"
  proof -
    fix c assume "c \<in> set (join [0x2C] (map json_string enc))"
    with set_join [of "[0x2C]" "map json_string enc"]
    have "c = 0x2C \<or> (\<exists>e \<in> set enc. c \<in> set (json_string e))" by auto
    with js show "c \<noteq> 0x5D \<and> \<not> line_terminator c" by (auto simp: line_terminator_def)
  qed
  from all show "0x5D \<notin> set (join [0x2C] (map json_string enc))" by blast
  from all show "\<forall>c \<in> set (join [0x2C] (map json_string enc)). \<not> line_terminator c" by blast
qed

lemma decoderLogic_shape:
  "\<exists>rest. decoderLogic (str ''_S'' @ a) (str ''_D'' @ f) enc k @ code
     = (str ''var _S'' @ a @ [0x3D] @ stringify_strings enc @ str '';var _D'' @ f @ str ''=function(i){'')
       @ (str ''var k='' @ [0x22] @ k @ [0x22, 0x3B] @ rest)"
  by (rule exI) (simp add: decoderLogic_def str_def cu_def)


lemma sc_artifact_searches:
  assumes enc: "\<forall>e \<in> set enc. list_all b64_unit e"
    and a: "a \<noteq> []" "list_all alnum a" and f: "list_all alnum f"
    and k: "k \<noteq> []" "list_all (\<lambda>c. alnum c \<or> c = 0x3D) k"
  shows "regex_search match_array (decoderLogic (str ''_S'' @ a) (str ''_D'' @ f) enc k @ code)
           = Some (stringify_strings enc)"
    and "regex_search match_key (decoderLogic (str ''_S'' @ a) (str ''_D'' @ f) enc k @ code)
           = Some k"
proof -
  let ?A = "decoderLogic (str ''_S'' @ a) (str ''_D'' @ f) enc k @ code"
  let ?inner = "join [0x2C] (map json_string enc)"
  have "\<exists>rest. ?A = str ''var _S'' @ a @ [0x3D, 0x5B] @ ?inner @ [0x5D, 0x3B] @ rest"
    by (rule exI) (simp add: decoderLogic_def stringify_strings_def str_def cu_def)
  then obtain rest where "?A = str ''var _S'' @ a @ [0x3D, 0x5B] @ ?inner @ [0x5D, 0x3B] @ rest" ..
  with match_array_at [OF a stringify_strings_inner [OF enc], of rest]
  have "match_array ?A = Some (stringify_strings enc)" by (simp add: stringify_strings_def)
  then show "regex_search match_array ?A = Some (stringify_strings enc)"
    by (rule regex_search_hit)
  let ?P = "str ''var _S'' @ a @ [0x3D] @ stringify_strings enc @ str '';var _D'' @ f
            @ str ''=function(i){''"
  from decoderLogic_shape [of a f enc k code] obtain rest'
    where shape: "?A = ?P @ (str ''var k='' @ [0x22] @ k @ [0x22, 0x3B] @ rest')" by blast
  let ?Y = "str ''var k='' @ [0x22] @ k @ [0x22, 0x3B] @ rest'"
  let ?p = "str ''var k='' @ [0x22]"
  have pk: "?p ! 3 = 0x20" "?p ! Suc 3 = 0x6B" "Suc 3 < length ?p"
    by (simp_all add: str_def cu_def)
  have sp: "0x20 \<notin> set a" "0x20 \<notin> set f" "0x20 \<notin> set (stringify_strings enc)"
    using a(2) f enc by (simp_all add: alnum_not_space stringify_strings_no_space)
  have "\<not> adjacent 0x20 0x6B (?P @ take (Suc 3) ?Y)"
    using sp by (simp add: str_def cu_def adjacent_Cons_ne adjacent_append_without)
  with pk have na: "\<not> adjacent (?p ! 3) (?p ! Suc 3) (?P @ take (Suc 3) ?Y)" by simp
  have "regex_search match_key (?P @ ?Y) = regex_search match_key ?Y"
  proof (rule regex_search_skip)
    fix i assume "i < length ?P"
    from no_prefix_before [OF na pk(3) this]
    show "match_key (drop i (?P @ ?Y)) = None" by (simp add: match_key_def)
  qed
  also have "\<dots> = Some k"
    by (rule regex_search_hit) (rule match_key_at [OF k])
  finally show "regex_search match_key ?A = Some k" by (simp only: shape)
qed

text \<open>
  Where both patterns of \<open>decode\<close> find their text: take an artifact that
  \<open>stringConceal.encode\<close> built for a text with at least one string literal, where the
  random array name has at least one character after \<open>_S\<close> (the random texts are digits
  and letters) and the embedded encoded key consists of letters, digits and \<open>=\<close>. Then
  \<open>decode\<close> with any non-empty key whose encoded form exists and differs from the
  embedded one fails with the error \<open>The provided key is incorrect.\<close>, re-thrown by
  its \<open>catch\<close>.
\<close>

lemma sc_decode_wrong_key:
  assumes "sc_encode rt code key = Inr r"
    and "fst (extract_strings code 0) \<noteq> []"
    and "random_suffix rt 0 \<noteq> []" and "list_all alnum (random_suffix rt 0)"
    and "list_all alnum (random_suffix rt 1)"
    and "btoa key = Inr encodedKey" and "list_all (\<lambda>c. alnum c \<or> c = 0x3D) encodedKey"
    and "wrongKey \<noteq> []" and "btoa wrongKey = Inr w" and "w \<noteq> encodedKey"
  shows "sc_decode (result r) wrongKey = Inl (RevealFailed KeyIncorrect)"
proof -
  from assms(1,2) obtain enc k where key: "key \<noteq> []"
    and enc: "map_throwing (\<lambda>s. btoa (xorCipher s key)) (fst (extract_strings code 0)) = Inr enc"
    and k: "btoa key = Inr k"
    and res: "result r = decoderLogic (str ''_S'' @ random_suffix rt 0)
                (str ''_D'' @ random_suffix rt 1) enc k
              @ replace_placeholders (str ''_D'' @ random_suffix rt 1) (snd (extract_strings code 0))"
    by (rule sc_encode_Inr)
  from k assms(6) have kk: "k = encodedKey" by simp
  from btoa_not_empty [OF k key] have kne: "k \<noteq> []" .
  note units = encrypted_strings_units [OF enc]
  from assms(7) kk have cls: "list_all (\<lambda>c. alnum c \<or> c = 0x3D) k" by simp
  have S1: "regex_search match_array (result r) = Some (stringify_strings enc)"
    unfolding res by (rule sc_artifact_searches(1) [OF units assms(3,4,5) kne cls])
  have S2: "regex_search match_key (result r) = Some k"
    unfolding res by (rule sc_artifact_searches(2) [OF units assms(3,4,5) kne cls])
  from parse_array_strings [OF units] assms(9,10) kk
  have "sc_decode_body (result r) wrongKey = Inl KeyIncorrect"
    by (simp add: sc_decode_body_def S1 S2)
  with assms(8) show ?thesis by (simp add: sc_decode_def)
qed

text \<open>Scenario C of the specification: the text \<open>let x = "hi";\<close> and the key \<open>k\<close>.\<close>

definition scenario_c :: jsstring where
  "scenario_c = str ''let x = '' @ [0x22] @ str ''hi'' @ [0x22] @ str '';''"

lemma scenario_c_extract:
  "extract_strings scenario_c 0 = ([str ''hi''], str ''let x = __DECRYPT_PLACEHOLDER__(0);'')"
  by code_simp

lemma scenario_c_encrypted:
  "map_throwing (\<lambda>s. btoa (xorCipher s (str ''k''))) [str ''hi''] = Inr [str ''AwI='']
   \<and> btoa (str ''k'') = Inr (str ''aw=='')"
  by code_simp

lemma scenario_c_encode: "\<exists>r. sc_encode sample_runtime scenario_c (str ''k'') = Inr r"
proof -
  have "str ''k'' \<noteq> []" "[str ''hi''] \<noteq> []" by (simp_all add: str_def)
  from sc_encode_InrI [OF this(1) scenario_c_extract this(2), of _ _ sample_runtime]
    scenario_c_encrypted
  show ?thesis by blast
qed

lemma sample_suffixes:
  "random_suffix sample_runtime 0 = str ''4fzy'' \<and> random_suffix sample_runtime 1 = str ''4fzy''
   \<and> list_all alnum (str ''4fzy'') \<and> list_all (\<lambda>c. alnum c \<or> c = 0x3D) (str ''aw=='')
   \<and> btoa (str ''j'') = Inr (str ''ag=='') \<and> str ''ag=='' \<noteq> str ''aw==''"
  by code_simp

text \<open>Scenario C with the key \<open>j\<close> given to \<open>decode\<close>.\<close>

lemma scenario_c_wrong_key:
  "\<exists>r. sc_encode sample_runtime scenario_c (str ''k'') = Inr r
       \<and> sc_decode (result r) (str ''j'') = Inl (RevealFailed KeyIncorrect)"
proof -
  from scenario_c_encode obtain r where r: "sc_encode sample_runtime scenario_c (str ''k'') = Inr r" ..
  have s: "fst (extract_strings scenario_c 0) \<noteq> []" by (simp add: scenario_c_extract)
  have ne: "random_suffix sample_runtime 0 \<noteq> []" "str ''j'' \<noteq> []"
    using sample_suffixes by (simp_all add: str_def)
  from sample_suffixes scenario_c_encrypted
  have "sc_decode (result r) (str ''j'') = Inl (RevealFailed KeyIncorrect)"
    by (intro sc_decode_wrong_key [OF r s ne(1) _ _ _ _ ne(2), of "str ''aw==''" "str ''ag==''"])
       simp_all
  with r show ?thesis by blast
qed

text \<open>The guard of \<open>decode\<close>: an empty key is refused before the artifact is read.\<close>

lemma sc_decode_empty_key: "sc_decode code [] = Inl KeyRequiredToReveal"
  by (simp add: sc_decode_def)

text \<open>
  When the key pattern finds nothing, \<open>decode\<close> throws
  \<open>Could not find the concealed string array or key in the code.\<close> before it
  compares any key, so every non-empty key gets the format error.
\<close>

lemma sc_decode_without_key:
  "regex_search match_key code = None \<Longrightarrow> key \<noteq> []
   \<Longrightarrow> sc_decode code key = Inl (RevealFailed ArrayOrKeyNotFound)"
  by (simp add: sc_decode_def sc_decode_body_def split: option.splits)

text \<open>
  Scenario C with the key \<open>ab?\<close>, on the engine of the concrete runs. \<open>btoa("ab?")\<close>
  is \<open>YWI/\<close>: the base64 alphabet has \<open>+\<close> and \<open>/\<close>, which the class
  \<open>[a-zA-Z0-9=]\<close> of the key pattern leaves out.
\<close>

lemma slash_key_encrypted:
  "map_throwing (\<lambda>s. btoa (xorCipher s (str ''ab?''))) [str ''hi''] = Inr [str ''CQs='']
   \<and> btoa (str ''ab?'') = Inr (str ''YWI/'')"
  by code_simp

lemma slash_key_names:
  "str ''_S'' @ random_suffix sample_runtime 0 = str ''_S4fzy''"
  "str ''_D'' @ random_suffix sample_runtime 1 = str ''_D4fzy''"
  "replace_placeholders (str ''_D4fzy'') (str ''let x = __DECRYPT_PLACEHOLDER__(0);'')
   = str ''let x = _D4fzy(0);''"
  by code_simp+

lemma slash_key_encode:
  "sc_encode sample_runtime scenario_c (str ''ab?'')
   = Inr \<lparr> result = decoderLogic (str ''_S4fzy'') (str ''_D4fzy'') [str ''CQs=''] (str ''YWI/'')
                     @ str ''let x = _D4fzy(0);'',
           map_log = sc_log_encode 1 \<rparr>"
proof -
  have ne: "str ''ab?'' \<noteq> []" "[str ''hi''] \<noteq> []" by (simp_all add: str_def)
  from slash_key_encrypted
  have e: "map_throwing (\<lambda>s. btoa (xorCipher s (str ''ab?''))) [str ''hi''] = Inr [str ''CQs='']"
    and k: "btoa (str ''ab?'') = Inr (str ''YWI/'')" by simp_all
  have l: "length [str ''hi''] = 1" by simp
  show ?thesis
    using sc_encode_InrI [OF ne(1) scenario_c_extract ne(2) e k, of sample_runtime]
    by (simp only: slash_key_names l)
qed

text \<open>
  In the artifact the one occurrence of \<open>var k="\<close> is followed by \<open>YWI/";\<close>: the
  class takes \<open>YWI\<close> and the next character is \<open>/\<close>, not the closing quote.
\<close>

lemma slash_key_search:
  "regex_search match_key
     (decoderLogic (str ''_S4fzy'') (str ''_D4fzy'') [str ''CQs=''] (str ''YWI/'')
      @ str ''let x = _D4fzy(0);'') = None"
  by code_simp

text \<open>So \<open>decode\<close> of that artifact fails with the format error for every key, the key
  of \<open>encode\<close> among them.\<close>

lemma slash_key_decode:
  "key \<noteq> [] \<Longrightarrow>
   sc_decode (decoderLogic (str ''_S4fzy'') (str ''_D4fzy'') [str ''CQs=''] (str ''YWI/'')
              @ str ''let x = _D4fzy(0);'') key = Inl (RevealFailed ArrayOrKeyNotFound)"
  by (rule sc_decode_without_key [OF slash_key_search])

text \<open>
  C7. Claim: \<open>decode\<close> of an artifact of \<open>encode\<close>, with any key whose encoded
  (base64) form differs from the encoded key embedded in the artifact, fails with the
  authentication error \<open>The provided key is incorrect.\<close> The code finds the embedded
  key with \<open>/var k="([a-zA-Z0-9=]+)";/\<close>, whose class has neither \<open>+\<close> nor
  \<open>/\<close>. For the text \<open>let x = "hi";\<close> and the key \<open>ab?\<close> the artifact embeds
  \<open>YWI/\<close>; the key \<open>k\<close> has the encoded form \<open>aw==\<close>, which differs, and
  \<open>decode\<close> of the artifact with \<open>k\<close> fails with the format error
  \<open>Could not find the concealed string array or key in the code.\<close> (re-thrown by its
  \<open>catch\<close>), not with the authentication error.
\<close>

theorem sc_decode_wrong_key_format_error:
  "\<exists>r. sc_encode sample_runtime scenario_c (str ''ab?'') = Inr r
       \<and> btoa (str ''ab?'') = Inr (str ''YWI/'') \<and> btoa (str ''k'') = Inr (str ''aw=='')
       \<and> str ''aw=='' \<noteq> str ''YWI/''
       \<and> sc_decode (result r) (str ''k'') = Inl (RevealFailed ArrayOrKeyNotFound)
       \<and> Inl (RevealFailed ArrayOrKeyNotFound) \<noteq> (Inl (RevealFailed KeyIncorrect) :: error + codec_result)"
proof -
  have "str ''k'' \<noteq> []" by (simp add: str_def)
  from sc_decode_without_key [OF slash_key_search this]
  have "sc_decode (decoderLogic (str ''_S4fzy'') (str ''_D4fzy'') [str ''CQs=''] (str ''YWI/'')
      @ str ''let x = _D4fzy(0);'') (str ''k'') = Inl (RevealFailed ArrayOrKeyNotFound)" .
  moreover have "str ''aw=='' \<noteq> str ''YWI/''" by (simp add: str_def cu_def)
  ultimately show ?thesis
    using slash_key_encode slash_key_encrypted scenario_c_encrypted by simp
qed


section \<open>string-conceal: the strings that decode reveals\<close>

lemma xor_twice: "(a XOR b) XOR b = (a :: 16 word)"
  by (simp add: xor.assoc)

lemma xorCipher_nth:
  "i < length s \<Longrightarrow> xorCipher s key ! i = (if key = [] then s ! i else s ! i XOR key ! (i mod length key))"
  by (simp add: xorCipher_def nth_enumerate_eq)

lemma length_xorCipher: "length (xorCipher s key) = length s"
  by (simp add: xorCipher_def)

lemma xorCipher_involution: "xorCipher (xorCipher s key) key = s"
  by (rule nth_equalityI) (simp_all add: length_xorCipher xorCipher_nth xor.assoc)

text \<open>The base64 text without its padding.\<close>

fun b64_body :: "nat list \<Rightarrow> jsstring" where
  "b64_body (a # b # c # rest) =
     [b64_char (a div 4), b64_char ((a mod 4) * 16 + b div 16),
      b64_char ((b mod 16) * 4 + c div 64), b64_char (c mod 64)] @ b64_body rest"
| "b64_body [a, b] =
     [b64_char (a div 4), b64_char ((a mod 4) * 16 + b div 16), b64_char ((b mod 16) * 4)]"
| "b64_body [a] = [b64_char (a div 4), b64_char ((a mod 4) * 16)]"
| "b64_body [] = []"

lemma b64_char_not_pad: "n < 64 \<Longrightarrow> b64_char n \<noteq> 0x3D"
proof
  assume "n < 64" "b64_char n = 0x3D"
  with b64_value_char have "b64_value 0x3D = Some n" by auto
  then show False by (simp add: b64_value_def)
qed

lemma length_b64_encode: "length (b64_encode bs) mod 4 = 0"
  by (induction bs rule: b64_encode.induct) simp_all

lemma b64_encode_Nil_iff: "b64_encode bs = [] \<longleftrightarrow> bs = []"
  by (cases bs rule: b64_encode.cases) simp_all

lemma strip_padding_block:
  assumes "length B = 4" and "X \<noteq> []" and "length X mod 4 = 0"
  shows "strip_padding (B @ X) = B @ strip_padding X"
proof -
  from assms(2,3) have len: "4 \<le> length X" by (cases X) (auto simp: mod_Suc split: if_splits)
  then have bl: "butlast X \<noteq> []" by (cases X rule: rev_cases) auto
  from assms(1,3) have m: "length (B @ X) mod 4 = 0" by simp
  from assms(2) have l: "last (B @ X) = last X" by simp
  from assms(2) have b: "butlast (B @ X) = B @ butlast X" by (simp add: butlast_append)
  from bl have lb: "last (B @ butlast X) = last (butlast X)" by simp
  from bl have bb: "butlast (B @ butlast X) = B @ butlast (butlast X)" by (simp add: butlast_append)
  show ?thesis
    using assms(2,3) bl
    by (simp only: strip_padding_def m l b lb bb) (simp add: butlast_append)
qed

lemma strip_padding_encode:
  "list_all (\<lambda>b. b < 256) bs \<Longrightarrow> strip_padding (b64_encode bs) = b64_body bs"
proof (induction bs rule: b64_encode.induct)
  case (1 a b c rest)
  then have c: "c mod 64 < 64" and r: "list_all (\<lambda>b. b < 256) rest" by simp_all
  let ?B = "[b64_char (a div 4), b64_char ((a mod 4) * 16 + b div 16),
             b64_char ((b mod 16) * 4 + c div 64), b64_char (c mod 64)]"
  show ?case
  proof (cases "rest = []")
    case True
    with b64_char_not_pad [OF c] show ?thesis by (simp add: strip_padding_def)
  next
    case False
    then have X: "b64_encode rest \<noteq> []" by (simp add: b64_encode_Nil_iff)
    have "strip_padding (?B @ b64_encode rest) = ?B @ strip_padding (b64_encode rest)"
      by (rule strip_padding_block [OF _ X length_b64_encode]) simp
    with 1(1) [OF r] show ?thesis by simp
  qed
next
  case (2 a b)
  then have "(b mod 16) * 4 < 64" by simp
  from b64_char_not_pad [OF this] show ?case by (simp add: strip_padding_def)
next
  case (3 a)
  then show ?case by (simp add: strip_padding_def)
next
  case 4
  then show ?case by (simp add: strip_padding_def)
qed


lemma b64_value_of_char: "n < 64 \<Longrightarrow> the (b64_value (b64_char n)) = n"
  using b64_value_char by simp

lemma b64_body_valid:
  "list_all (\<lambda>b. b < 256) bs \<Longrightarrow>
     list_all (\<lambda>c. b64_value c \<noteq> None) (b64_body bs) \<and> length (b64_body bs) mod 4 \<noteq> 1"
proof (induction bs rule: b64_body.induct)
  case (1 a b c rest)
  then have "a div 4 < 64" "(a mod 4) * 16 + b div 16 < 64" "(b mod 16) * 4 + c div 64 < 64"
    "c mod 64 < 64" by simp_all arith+
  with 1 b64_value_char show ?case by simp
next
  case (2 a b)
  then have "a div 4 < 64" "(a mod 4) * 16 + b div 16 < 64" "(b mod 16) * 4 < 64"
    by simp_all arith+
  with b64_value_char show ?case by simp
next
  case (3 a)
  then have "a div 4 < 64" "(a mod 4) * 16 < 64" by simp_all
  with b64_value_char show ?case by simp
next
  case 4
  then show ?case by simp
qed

lemma divmod_mix: "y < n \<Longrightarrow> (x * n + y) div n = x \<and> (x * n + y) mod n = (y::nat)"
  by simp

lemma sextets_to_bytes:
  assumes "b < 256" "c < 256"
  shows "(a div 4) * 4 + ((a mod 4) * 16 + b div 16) div 16 = (a::nat)"
    and "(((a mod 4) * 16 + b div 16) mod 16) * 16 + ((b mod 16) * 4 + c div 64) div 4 = b"
    and "(((b mod 16) * 4 + c div 64) mod 4) * 64 + c mod 64 = c"
proof -
  from assms have b: "b div 16 < 16" and c: "c div 64 < 4" by simp_all
  from divmod_mix [OF b, of "a mod 4"] divmod_mix [OF c, of "b mod 16"]
  show "(a div 4) * 4 + ((a mod 4) * 16 + b div 16) div 16 = a"
    and "(((a mod 4) * 16 + b div 16) mod 16) * 16 + ((b mod 16) * 4 + c div 64) div 4 = b"
    and "(((b mod 16) * 4 + c div 64) mod 4) * 64 + c mod 64 = c"
    by simp_all
qed

lemma sextet_bounds:
  assumes "a < 256" "b < 256" "c < 256"
  shows "a div 4 < 64" "(a mod 4) * 16 + b div 16 < 64" "(b mod 16) * 4 + c div 64 < 64"
    "c mod 64 < (64::nat)" "(b mod 16) * 4 < 64" "(a mod 4) * 16 < 64"
proof -
  from assms have "b div 16 < 16" "c div 64 < 4" "a mod 4 < 4" "b mod 16 < 16" by simp_all
  then show "(a mod 4) * 16 + b div 16 < 64" "(b mod 16) * 4 + c div 64 < 64"
    "(b mod 16) * 4 < 64" "(a mod 4) * 16 < 64" by linarith+
  from assms show "a div 4 < 64" "c mod 64 < 64" by simp_all
qed

lemma two_bytes:
  assumes "b < 256"
  shows "(((a mod 4) * 16 + b div 16) mod 16) * 16 + ((b mod 16) * 4) div 4 = (b::nat)"
proof -
  from assms have b: "b div 16 < 16" by simp
  from divmod_mix [OF b, of "a mod 4"] show ?thesis by simp
qed

lemma last_two:
  "((a mod 4) * 16) div 16 = (a mod 4 :: nat)" "((b mod 16) * 4) div 4 = (b mod 16 :: nat)"
  by simp_all

lemma b64_decode_body:
  "list_all (\<lambda>b. b < 256) bs \<Longrightarrow>
     b64_decode (map (\<lambda>c. the (b64_value c)) (b64_body bs)) = map of_nat bs"
proof (induction bs rule: b64_body.induct)
  case (1 a b c rest)
  then have abc: "a < 256" "b < 256" "c < 256" by simp_all
  note lt = sextet_bounds(1-4) [OF abc]
  note ar = sextets_to_bytes [OF abc(2,3)]
  from 1 have "b64_decode (map (\<lambda>c. the (b64_value c)) (b64_body rest)) = map of_nat rest"
    by simp
  with lt ar show ?case by (simp add: b64_value_of_char)
next
  case (2 a b)
  then have ab: "a < 256" "b < 256" by simp_all
  note lt = sextet_bounds(1,2,5) [OF ab ab(2)]
  note ar = sextets_to_bytes(1) [OF ab(2) ab(2)] two_bytes [OF ab(2)]
  with lt show ?case by (simp add: b64_value_of_char)
next
  case (3 a)
  then have a: "a < 256" by simp
  note lt = sextet_bounds(1,6) [OF a a a]
  with last_two(1) [of a] show ?case by (simp add: b64_value_of_char)
next
  case 4
  then show ?case by simp
qed

lemma b64_unit_not_whitespace: "b64_unit c \<Longrightarrow> \<not> ascii_whitespace c"
  using b64_unit_facts [of c] by (auto simp: ascii_whitespace_def)

lemma atob_btoa: "btoa s = Inr t \<Longrightarrow> atob t = Inr s"
proof -
  assume a: "btoa s = Inr t"
  then have le: "list_all (\<lambda>c. c \<le> 0xFF) s" and t: "t = b64_encode (map unat s)"
    by (auto simp: btoa_def split: if_splits)
  from le have bs: "list_all (\<lambda>b. b < 256) (map unat s)"
    by (fastforce simp: list_all_iff word_le_nat_alt)
  from btoa_units [OF a] have "filter (\<lambda>c. \<not> ascii_whitespace c) t = t"
    by (auto simp: list_all_iff b64_unit_not_whitespace intro: filter_True)
  moreover have "strip_padding t = b64_body (map unat s)"
    unfolding t by (rule strip_padding_encode [OF bs])
  moreover have "map of_nat (map unat s) = s"
    by (simp add: map_idI)
  ultimately show ?thesis
    using b64_body_valid [OF bs] b64_decode_body [OF bs]
    by (simp add: atob_def Let_def)
qed

lemma reveal_encrypted:
  assumes "map_throwing (\<lambda>s. btoa (xorCipher s key)) strings = Inr enc"
  shows "map_throwing (\<lambda>s. case atob (to_string s) of Inl e \<Rightarrow> Inl e | Inr t \<Rightarrow> Inr (xorCipher t key))
           (map JString enc) = Inr strings"
  using assms
proof (induction strings arbitrary: enc)
  case Nil
  then show ?case by simp
next
  case (Cons s strings)
  from Cons.prems obtain e es where e: "btoa (xorCipher s key) = Inr e"
    and es: "map_throwing (\<lambda>s. btoa (xorCipher s key)) strings = Inr es" and enc: "enc = e # es"
    by (auto split: sum.splits)
  from atob_btoa [OF e] Cons.IH [OF es] enc show ?case
    by (simp add: to_string_def xorCipher_involution)
qed

text \<open>
  Where the array name has a character after \<open>_S\<close> and the encoded key consists of
  letters, digits and \<open>=\<close>, \<open>decode\<close> with the key of \<open>encode\<close> succeeds: it
  returns the fixed note, and its log lists the strings that \<open>encode\<close> extracted from
  the text, in their order.
\<close>

theorem sc_decode_reveals:
  assumes "sc_encode rt code key = Inr r"
    and "fst (extract_strings code 0) \<noteq> []"
    and "random_suffix rt 0 \<noteq> []" and "list_all alnum (random_suffix rt 0)"
    and "list_all alnum (random_suffix rt 1)"
    and "btoa key = Inr encodedKey" and "list_all (\<lambda>c. alnum c \<or> c = 0x3D) encodedKey"
  shows "sc_decode (result r) key
         = Inr \<lparr> result = sc_result_decode,
                 map_log = sc_log_decode (fst (extract_strings code 0)) \<rparr>"
proof -
  from assms(1,2) obtain enc k where key: "key \<noteq> []"
    and enc: "map_throwing (\<lambda>s. btoa (xorCipher s key)) (fst (extract_strings code 0)) = Inr enc"
    and k: "btoa key = Inr k"
    and res: "result r = decoderLogic (str ''_S'' @ random_suffix rt 0)
                (str ''_D'' @ random_suffix rt 1) enc k
              @ replace_placeholders (str ''_D'' @ random_suffix rt 1) (snd (extract_strings code 0))"
    by (rule sc_encode_Inr)
  from k assms(6) have kk: "k = encodedKey" by simp
  from btoa_not_empty [OF k key] have kne: "k \<noteq> []" .
  note units = encrypted_strings_units [OF enc]
  from assms(7) kk have cls: "list_all (\<lambda>c. alnum c \<or> c = 0x3D) k" by simp
  have S1: "regex_search match_array (result r) = Some (stringify_strings enc)"
    unfolding res by (rule sc_artifact_searches(1) [OF units assms(3,4,5) kne cls])
  have S2: "regex_search match_key (result r) = Some k"
    unfolding res by (rule sc_artifact_searches(2) [OF units assms(3,4,5) kne cls])
  from parse_array_strings [OF units] k reveal_encrypted [OF enc]
  have "sc_decode_body (result r) key
        = Inr \<lparr> result = sc_result_decode,
                map_log = sc_log_decode (fst (extract_strings code 0)) \<rparr>"
    by (simp add: sc_decode_body_def S1 S2)
  with key show ?thesis by (simp add: sc_decode_def)
qed

text \<open>
  A runtime whose first \<open>Math.random()\<close> is 0: \<open>(0).toString(36)\<close> is the text
  \<open>0\<close>, and \<open>substring(2, 6)\<close> of it is empty, so the array is named \<open>_S\<close>.
\<close>

definition zero_random_runtime :: runtime where
  "zero_random_runtime =
     sample_runtime\<lparr>math_random := (\<lambda>n. if n = 0 then str ''0'' else str ''0.4fzyo82mvyr'')\<rparr>"

text \<open>The text \<open>var _Sx=[];"hi"\<close>.\<close>

definition array_in_code :: jsstring where
  "array_in_code = str ''var _Sx=[];'' @ [0x22] @ str ''hi'' @ [0x22]"

lemma array_in_code_extract:
  "extract_strings array_in_code 0 = ([str ''hi''], str ''var _Sx=[];__DECRYPT_PLACEHOLDER__(0)'')"
  by code_simp

lemma zero_random_suffixes:
  "str ''_S'' @ random_suffix zero_random_runtime 0 = str ''_S''"
  "str ''_D'' @ random_suffix zero_random_runtime 1 = str ''_D4fzy''"
  "replace_placeholders (str ''_D4fzy'') (str ''var _Sx=[];__DECRYPT_PLACEHOLDER__(0)'')
   = str ''var _Sx=[];_D4fzy(0)''"
  by code_simp+

lemma array_in_code_encode:
  "sc_encode zero_random_runtime array_in_code (str ''k'')
   = Inr \<lparr> result = decoderLogic (str ''_S'') (str ''_D4fzy'') [str ''AwI=''] (str ''aw=='')
                     @ str ''var _Sx=[];_D4fzy(0)'',
           map_log = sc_log_encode 1 \<rparr>"
proof -
  have ne: "str ''k'' \<noteq> []" "[str ''hi''] \<noteq> []" by (simp_all add: str_def)
  from scenario_c_encrypted
  have e: "map_throwing (\<lambda>s. btoa (xorCipher s (str ''k''))) [str ''hi''] = Inr [str ''AwI='']"
    and k: "btoa (str ''k'') = Inr (str ''aw=='')" by simp_all
  have l: "length [str ''hi''] = 1" by simp
  show ?thesis
    using sc_encode_InrI [OF ne(1) array_in_code_extract ne(2) e k, of zero_random_runtime]
    by (simp only: zero_random_suffixes l)
qed

lemma array_in_code_decode:
  "sc_decode (decoderLogic (str ''_S'') (str ''_D4fzy'') [str ''AwI=''] (str ''aw=='')
              @ str ''var _Sx=[];_D4fzy(0)'') (str ''k'')
   = Inr \<lparr> result = sc_result_decode, map_log = sc_log_decode [] \<rparr>"
  by code_simp

text \<open>
  C8. Claim: when \<open>decode\<close> succeeds, the strings it lists are the string literals of
  the text that was encoded, in order. \<open>decode\<close> finds the array with
  \<open>/var (_S[a-zA-Z0-9]+)=(\[.*?\]);/\<close>, which asks for a character after \<open>_S\<close>;
  \<open>encode\<close> names the array \<open>_S\<close> and up to four random characters, none when
  \<open>Math.random()\<close> is 0. Then the pattern passes over the array of the prelude and
  matches a later \<open>var _S...=[...];\<close> of the program: for the text
  \<open>var _Sx=[];"hi"\<close>, whose one literal is \<open>hi\<close>, \<open>decode\<close> with the right key
  succeeds and lists no string.
\<close>

theorem sc_decode_misses_strings:
  "\<exists>r. sc_encode zero_random_runtime array_in_code (str ''k'') = Inr r
       \<and> fst (extract_strings array_in_code 0) = [str ''hi'']
       \<and> sc_decode (result r) (str ''k'')
           = Inr \<lparr> result = sc_result_decode, map_log = sc_log_decode [] \<rparr>"
  using array_in_code_encode array_in_code_decode array_in_code_extract by simp

section \<open>lexical-scramble: the generated names\<close>

text \<open>
  The recurrence as the specification words it, with the constant 52: prepend
  \<open>alphabet[n mod 52]\<close>, set \<open>n = floor(n / 52) - 1\<close>, repeat while \<open>n >= 0\<close>.
\<close>

function claimed_name_loop :: "nat \<Rightarrow> jsstring \<Rightarrow> jsstring" where
  "claimed_name_loop n name =
     (let name' = alphabet ! (n mod 52) # name
      in if 1 \<le> n div 52 then claimed_name_loop (n div 52 - 1) name' else name')"
  by pat_completeness auto
termination
  by (relation "measure fst") auto

declare claimed_name_loop.simps [simp del]

definition claimed_name :: "nat \<Rightarrow> jsstring" where
  "claimed_name n = claimed_name_loop n []"

text \<open>The place of a letter in the alphabet \<open>a..z A..Z _\<close>.\<close>

definition letter_index :: "16 word \<Rightarrow> nat" where
  "letter_index c =
     (if 0x61 \<le> c \<and> c \<le> 0x7A then unat c - 97
      else if 0x41 \<le> c \<and> c \<le> 0x5A then unat c - 39
      else 52)"

text \<open>The order of the names: shorter names first, names of one length in the order of
  their letters from the left.\<close>

fun lex_less :: "nat list \<Rightarrow> nat list \<Rightarrow> bool" where
  "lex_less (x # xs) (y # ys) = (x < y \<or> (x = y \<and> lex_less xs ys))"
| "lex_less [] (y # ys) = True"
| "lex_less xs [] = False"

definition name_less :: "jsstring \<Rightarrow> jsstring \<Rightarrow> bool" where
  "name_less a b \<longleftrightarrow>
     length a < length b
     \<or> (length a = length b \<and> lex_less (map letter_index a) (map letter_index b))"

lemma length_alphabet: "length alphabet = 53"
  by (simp add: alphabet_def str_def)

text \<open>
  C5. Claim: the name of index \<open>n\<close> comes from the recurrence with \<open>n mod 52\<close> and
  \<open>floor(n / 52) - 1\<close>. The alphabet of the source has 53 characters and the code
  divides by its length: index 52 is the one-letter name \<open>_\<close>, where the recurrence
  of the claim gives \<open>aa\<close>.
\<close>

theorem generateName_52_counterexample:
  "generateName 52 = str ''_'' \<and> claimed_name 52 = str ''aa'' \<and> generateName 52 \<noteq> claimed_name 52"
  by code_simp

lemma generateName_loop_append: "generateName_loop n name = generateName_loop n [] @ name"
proof (induction n arbitrary: name rule: less_induct)
  case (less n)
  let ?c = "alphabet ! (n mod length alphabet)"
  let ?q = "n div length alphabet - 1"
  show ?case
  proof (cases "1 \<le> n div length alphabet")
    case True
    then have q: "?q < n" by (simp add: length_alphabet)
    have "generateName_loop n name = generateName_loop ?q (?c # name)"
      using True by (subst generateName_loop.simps) (simp add: Let_def)
    also have "\<dots> = generateName_loop ?q [] @ (?c # name)"
      using less [OF q] .
    also have "\<dots> = (generateName_loop ?q [] @ [?c]) @ name" by simp
    also have "generateName_loop ?q [] @ [?c] = generateName_loop ?q [?c]"
      using less [OF q, of "[?c]"] by simp
    also have "generateName_loop ?q [?c] = generateName_loop n []"
      using True by (subst (2) generateName_loop.simps) (simp add: Let_def)
    finally show ?thesis .
  next
    case False
    then show ?thesis
      by (subst generateName_loop.simps, subst (2) generateName_loop.simps) (simp add: Let_def)
  qed
qed

lemma generateName_rec:
  "generateName n =
     (if n < 53 then [alphabet ! n] else generateName (n div 53 - 1) @ [alphabet ! (n mod 53)])"
proof (cases "n < 53")
  case True
  then show ?thesis
    unfolding generateName_def
    by (subst generateName_loop.simps) (simp add: Let_def length_alphabet)
next
  case False
  then have "1 \<le> n div 53" by arith
  then have "generateName_loop n [] = generateName_loop (n div 53 - 1) [alphabet ! (n mod 53)]"
    by (subst generateName_loop.simps) (simp add: Let_def length_alphabet)
  also have "\<dots> = generateName_loop (n div 53 - 1) [] @ [alphabet ! (n mod 53)]"
    by (rule generateName_loop_append)
  finally show ?thesis using False by (simp add: generateName_def)
qed

lemma letter_index_alphabet: "d < 53 \<Longrightarrow> letter_index (alphabet ! d) = d"
proof -
  have "\<forall>d<53. letter_index (alphabet ! d) = d"
    by code_simp
  then show "d < 53 \<Longrightarrow> letter_index (alphabet ! d) = d" by blast
qed

text \<open>The places of the letters of the \<open>n\<close>-th name.\<close>

function name_digits :: "nat \<Rightarrow> nat list" where
  "name_digits n = (if n < 53 then [n] else name_digits (n div 53 - 1) @ [n mod 53])"
  by pat_completeness auto
termination
  by (relation "measure id") auto

declare name_digits.simps [simp del]

lemma letters_of_generateName: "map letter_index (generateName n) = name_digits n"
proof (induction n rule: less_induct)
  case (less n)
  show ?case
  proof (cases "n < 53")
    case True
    then show ?thesis
      by (subst generateName_rec, subst name_digits.simps) (simp add: letter_index_alphabet)
  next
    case False
    then have "n div 53 - 1 < n" by arith
    from less [OF this] False show ?thesis
      by (subst generateName_rec, subst name_digits.simps) (simp add: letter_index_alphabet)
  qed
qed

lemma length_generateName: "length (generateName n) = length (name_digits n)"
  using letters_of_generateName [of n, THEN arg_cong, of length] by simp

lemma length_name_digits_pos: "0 < length (name_digits n)"
  by (subst name_digits.simps) simp

lemma length_name_digits_mono: "m \<le> n \<Longrightarrow> length (name_digits m) \<le> length (name_digits n)"
proof (induction n arbitrary: m rule: less_induct)
  case (less n)
  show ?case
  proof (cases "n < 53")
    case True
    with less.prems have "m < 53" by simp
    with True show ?thesis
      by (subst name_digits.simps, subst (2) name_digits.simps) simp
  next
    case False
    note n = this
    show ?thesis
    proof (cases "m < 53")
      case True
      have "1 \<le> length (name_digits n)" using length_name_digits_pos [of n] by linarith
      with True show ?thesis by (subst name_digits.simps) simp
    next
      case False
      from n have q: "n div 53 - 1 < n" by arith
      from less.prems have "m div 53 - 1 \<le> n div 53 - 1"
        by (simp add: div_le_mono diff_le_mono)
      from less.IH [OF q this] n False show ?thesis
        by (subst name_digits.simps, subst (2) name_digits.simps) simp
    qed
  qed
qed

lemma lex_less_snoc: "lex_less (p @ [a]) (p @ [b]) = (a < b)"
  by (induction p) auto

lemma lex_less_append:
  "length xs = length ys \<Longrightarrow> lex_less xs ys \<Longrightarrow> lex_less (xs @ u) (ys @ v)"
  by (induction xs ys rule: list_induct2) auto

lemma lex_less_irrefl: "\<not> lex_less xs xs"
  by (induction xs) auto

lemma name_digits_lex:
  "m < n \<Longrightarrow> length (name_digits m) = length (name_digits n)
   \<Longrightarrow> lex_less (name_digits m) (name_digits n)"
proof (induction n arbitrary: m rule: less_induct)
  case (less n)
  show ?case
  proof (cases "n < 53")
    case True
    with less.prems(1) have "m < 53" by simp
    with True less.prems(1) show ?thesis
      by (subst name_digits.simps, subst (2) name_digits.simps) simp
  next
    case False
    note n = this
    have len_n: "length (name_digits n) = Suc (length (name_digits (n div 53 - 1)))"
      using n by (subst name_digits.simps) simp
    have m: "\<not> m < 53"
    proof
      assume "m < 53"
      then have "length (name_digits m) = 1" by (subst name_digits.simps) simp
      with less.prems(2) len_n length_name_digits_pos [of "n div 53 - 1"] show False by simp
    qed
    have len_m: "length (name_digits m) = Suc (length (name_digits (m div 53 - 1)))"
      using m by (subst name_digits.simps) simp
    from len_m len_n less.prems(2)
    have len: "length (name_digits (m div 53 - 1)) = length (name_digits (n div 53 - 1))"
      by simp
    from n have q: "n div 53 - 1 < n" by arith
    have dm: "name_digits m = name_digits (m div 53 - 1) @ [m mod 53]"
      using m by (subst name_digits.simps) simp
    have dn: "name_digits n = name_digits (n div 53 - 1) @ [n mod 53]"
      using n by (subst name_digits.simps) simp
    show ?thesis
    proof (cases "m div 53 = n div 53")
      case True
      with less.prems(1) have "m mod 53 < n mod 53"
        by (metis div_mult_mod_eq nat_add_left_cancel_less)
      with True show ?thesis
        by (subst dm, subst dn) (simp add: lex_less_snoc)
    next
      case False
      with less.prems(1) have "m div 53 < n div 53"
        by (meson div_le_mono less_or_eq_imp_le nat_less_le)
      with m have "m div 53 - 1 < n div 53 - 1" by arith
      from less.IH [OF q this len] len show ?thesis
        by (subst dm, subst dn) (rule lex_less_append)
    qed
  qed
qed

lemma generateName_increasing: "m < n \<Longrightarrow> name_less (generateName m) (generateName n)"
proof -
  assume mn: "m < n"
  then have "length (name_digits m) \<le> length (name_digits n)"
    by (simp add: length_name_digits_mono)
  then show ?thesis
    using name_digits_lex [OF mn]
    by (auto simp: name_less_def length_generateName letters_of_generateName)
qed

lemma name_less_irrefl: "\<not> name_less a a"
  by (simp add: name_less_def lex_less_irrefl)

text \<open>
  C5, amended. The name of index \<open>n\<close> comes from the recurrence with the length of the
  alphabet, 53: the last letter is \<open>alphabet[n mod 53]\<close> and the letters before it are
  the name of \<open>floor(n / 53) - 1\<close> when that is not negative. The names of successive
  indices are strictly increasing (shorter first, then by letters) and no two indices
  share a name.
\<close>

theorem generateName_base53:
  "generateName n =
     (if n < 53 then [alphabet ! n] else generateName (n div 53 - 1) @ [alphabet ! (n mod 53)])
   \<and> (m < n \<longrightarrow> name_less (generateName m) (generateName n))
   \<and> (generateName m = generateName n \<longrightarrow> m = n)"
proof (intro conjI impI)
  show "generateName n =
     (if n < 53 then [alphabet ! n] else generateName (n div 53 - 1) @ [alphabet ! (n mod 53)])"
    by (rule generateName_rec)
  show "m < n \<Longrightarrow> name_less (generateName m) (generateName n)"
    by (rule generateName_increasing)
  show "generateName m = generateName n \<Longrightarrow> m = n"
  proof (rule ccontr)
    assume eq: "generateName m = generateName n" and "m \<noteq> n"
    then consider "m < n" | "n < m" by arith
    then show False
    proof cases
      case 1
      from generateName_increasing [OF 1] eq show False by (simp add: name_less_irrefl)
    next
      case 2
      from generateName_increasing [OF 2] eq show False by (simp add: name_less_irrefl)
    qed
  qed
qed

theorem generateName_base53_witness:
  "generateName 53 = generateName 0 @ [alphabet ! 0]
   \<and> name_less (generateName 52) (generateName 53)
   \<and> generateName 52 \<noteq> generateName 53"
  using generateName_base53 [of 53 52, simplified] by blast

section \<open>lexical-scramble: decode after encode\<close>

text \<open>
  C9. Claim: \<open>decode(encode(T).result, encode(T).map).result\<close> is the minified \<open>T\<close>.
  The rewrite replaces one identifier after the other in the whole text, and a name it
  has just written can be an identifier that is replaced later. In
  \<open>var b = 1; var a = b;\<close> the identifier \<open>b\<close> becomes \<open>a\<close> and then every \<open>a\<close>,
  the old and the new, becomes \<open>b\<close>: the two variables are one in the artifact, and
  \<open>decode\<close> turns both into \<open>a\<close>. The text has no comment and no run of white
  space, so it is its own minified form, and \<open>decode\<close> does not return it.
\<close>

theorem ls_decode_encode_differs:
  "ls_encode (str ''var b = 1; var a = b;'')
     = \<lparr> result = str ''var b = 1; var b = b;'',
         map_log = stringify_table [(str ''b'', str ''a''), (str ''a'', str ''b'')] \<rparr>
   \<and> ls_decode (str ''var b = 1; var b = b;'')
         (stringify_table [(str ''b'', str ''a''), (str ''a'', str ''b'')])
     = Inr \<lparr> result = str ''var a = 1; var a = a;'', map_log = ls_log_decode \<rparr>
   \<and> minify (str ''var b = 1; var a = b;'') = str ''var b = 1; var a = b;''
   \<and> str ''var a = 1; var a = a;'' \<noteq> str ''var b = 1; var a = b;''"
  by code_simp

end
